theory Spec2Isabelle
  imports Complex_Main "HOL-Library.Multiset"
begin

section \<open>Python floats and exceptions\<close>

text \<open>
  The calculator works on Python \<^verbatim>\<open>float\<close> values, which are IEEE 754 binary64 numbers.
  A finite float is a real number that round-to-nearest-even leaves unchanged and that is
  below \<open>2 ^ 1024\<close> in magnitude; every arithmetic operation computes the exact real
  result and rounds it, overflowing to an infinity and underflowing through the subnormal
  range to zero. Python's \<^verbatim>\<open>==\<close>, \<^verbatim>\<open><\<close> and \<^verbatim>\<open><=\<close> do not tell \<^verbatim>\<open>-0.0\<close> from \<^verbatim>\<open>0.0\<close>,
  and the program never divides by a zero, so the two zeros are one value here.
\<close>

text \<open>Rounding a real to the nearest integer, a tie going to the even one.\<close>

definition rhe :: "real \<Rightarrow> int" where
  "rhe y =
     (let f = \<lfloor>y\<rfloor>; d = y - of_int f
      in if d < 1 / 2 then f else if 1 / 2 < d then f + 1 else if even f then f else f + 1)"

text \<open>
  The binary exponent of a nonzero real, not below that of the smallest normal number:
  all subnormal numbers share the exponent \<open>- 1022\<close>.
\<close>

definition expo :: "real \<Rightarrow> int" where
  "expo x = max \<lfloor>log 2 \<bar>x\<bar>\<rfloor> (- 1022)"

text \<open>
  Round-to-nearest-even at 53 bits of precision: the spacing of the floats around \<open>x\<close> is
  \<open>2 powi (expo x - 52)\<close>, and \<open>x\<close> goes to the nearest multiple of it.
\<close>

definition rnd :: "real \<Rightarrow> real" where
  "rnd x =
     (if x = 0 then 0
      else 2 powi (expo x - 52) * of_int (rhe (x / 2 powi (expo x - 52))))"

definition is_double :: "real \<Rightarrow> bool" where
  "is_double x \<longleftrightarrow> rnd x = x \<and> \<bar>x\<bar> < 2 ^ 1024"

typedef double = "{x. is_double x}"
  by (rule exI [of _ 0]) (simp add: is_double_def rnd_def)

definition val :: "double \<Rightarrow> real" where
  "val d = Rep_double d"

datatype pyfloat = Finite double | PosInf | NegInf | NaN

datatype py_error = KeyError string | ValueError | ZeroDivisionError | IndexError

fun is_inf :: "pyfloat \<Rightarrow> bool" where
  "is_inf PosInf = True"
| "is_inf NegInf = True"
| "is_inf _ = False"

fun is_finite :: "pyfloat \<Rightarrow> bool" where
  "is_finite (Finite x) = True"
| "is_finite _ = False"

text \<open>An infinity of the given sign (\<open>True\<close> is positive).\<close>

definition inf_of :: "bool \<Rightarrow> pyfloat" where
  "inf_of positive = (if positive then PosInf else NegInf)"

text \<open>
  The float of an exact real result: the rounded value, or an infinity when the rounded
  value is out of range.
\<close>

definition round64 :: "real \<Rightarrow> pyfloat" where
  "round64 x =
     (let y = rnd x
      in if 2 ^ 1024 \<le> \<bar>y\<bar> then inf_of (0 < x) else Finite (Abs_double y))"

text \<open>The smallest positive float, the subnormal \<^verbatim>\<open>5e-324\<close>.\<close>

definition min_subnormal :: real where
  "min_subnormal = 2 powi (- 1074)"

text \<open>A float literal of the source, such as \<^verbatim>\<open>0.33\<close>: the float nearest to the decimal.\<close>

definition py_float :: "real \<Rightarrow> pyfloat" where
  "py_float x = round64 x"

text \<open>\<^verbatim>\<open>a + b\<close> on floats: never raises; opposite infinities give NaN.\<close>

fun fadd :: "pyfloat \<Rightarrow> pyfloat \<Rightarrow> pyfloat" where
  "fadd (Finite x) (Finite y) = round64 (val x + val y)"
| "fadd NaN b = NaN"
| "fadd a NaN = NaN"
| "fadd PosInf NegInf = NaN"
| "fadd NegInf PosInf = NaN"
| "fadd PosInf b = PosInf"
| "fadd NegInf b = NegInf"
| "fadd (Finite x) b = b"

text \<open>\<^verbatim>\<open>a * b\<close> on floats: never raises; zero times an infinity gives NaN.\<close>

fun fmul :: "pyfloat \<Rightarrow> pyfloat \<Rightarrow> pyfloat" where
  "fmul (Finite x) (Finite y) = round64 (val x * val y)"
| "fmul NaN b = NaN"
| "fmul a NaN = NaN"
| "fmul (Finite x) PosInf = (if val x = 0 then NaN else inf_of (0 < val x))"
| "fmul (Finite x) NegInf = (if val x = 0 then NaN else inf_of (val x < 0))"
| "fmul PosInf (Finite y) = (if val y = 0 then NaN else inf_of (0 < val y))"
| "fmul NegInf (Finite y) = (if val y = 0 then NaN else inf_of (val y < 0))"
| "fmul PosInf PosInf = PosInf"
| "fmul PosInf NegInf = NegInf"
| "fmul NegInf PosInf = NegInf"
| "fmul NegInf NegInf = PosInf"

text \<open>
  \<^verbatim>\<open>a / b\<close> on floats: Python raises \<^verbatim>\<open>ZeroDivisionError\<close> when the divisor is zero,
  whatever the dividend; otherwise the quotient follows IEEE 754.
\<close>

fun fdiv :: "pyfloat \<Rightarrow> pyfloat \<Rightarrow> py_error + pyfloat" where
  "fdiv a (Finite y) =
     (if val y = 0 then Inl ZeroDivisionError
      else case a of
        Finite x \<Rightarrow> Inr (round64 (val x / val y))
      | PosInf \<Rightarrow> Inr (inf_of (0 < val y))
      | NegInf \<Rightarrow> Inr (inf_of (val y < 0))
      | NaN \<Rightarrow> Inr NaN)"
| "fdiv a NaN = Inr NaN"
| "fdiv (Finite x) b = Inr (py_float 0)"
| "fdiv a b = Inr NaN"

text \<open>\<^verbatim>\<open>a <= b\<close>, \<^verbatim>\<open>a > b\<close> and \<^verbatim>\<open>a < b\<close>: every comparison with NaN is false.\<close>

fun fle :: "pyfloat \<Rightarrow> pyfloat \<Rightarrow> bool" where
  "fle (Finite x) (Finite y) = (val x \<le> val y)"
| "fle NaN b = False"
| "fle a NaN = False"
| "fle NegInf b = True"
| "fle a PosInf = True"
| "fle a b = False"

fun flt :: "pyfloat \<Rightarrow> pyfloat \<Rightarrow> bool" where
  "flt (Finite x) (Finite y) = (val x < val y)"
| "flt NaN b = False"
| "flt a NaN = False"
| "flt PosInf b = False"
| "flt a NegInf = False"
| "flt a b = True"

definition fgt :: "pyfloat \<Rightarrow> pyfloat \<Rightarrow> bool" where
  "fgt a b = flt b a"

text \<open>
  A Python \<^verbatim>\<open>int\<close> used in float arithmetic or compared with a float: the float nearest
  to it. The ints of the program are the table's distances and \<^verbatim>\<open>100\<close>, which are floats
  themselves, so the conversion is exact and the comparison is the exact one Python makes.
\<close>

definition float_of_int :: "int \<Rightarrow> pyfloat" where
  "float_of_int n = round64 (of_int n)"

text \<open>
  \<^verbatim>\<open>math.radians(x)\<close> is \<^verbatim>\<open>x * degToRad\<close>, where the C constant \<^verbatim>\<open>degToRad\<close> is the float
  quotient of \<^verbatim>\<open>Py_MATH_PI\<close> (the float nearest to pi, \<^verbatim>\<open>0x1.921fb54442d18p+1\<close>) by
  \<^verbatim>\<open>180.0\<close>; it never raises. \<^verbatim>\<open>math.cos\<close> and \<^verbatim>\<open>math.sin\<close> raise \<^verbatim>\<open>ValueError\<close> (math
  domain error) on an infinite argument and pass NaN through; on a finite argument the C
  library's result is taken to be the correctly rounded cosine and sine.
\<close>

definition Py_MATH_PI :: real where
  "Py_MATH_PI = 884279719003555 / 2 ^ 48"

definition degToRad :: pyfloat where
  "degToRad = round64 (Py_MATH_PI / 180)"

definition math_radians :: "pyfloat \<Rightarrow> pyfloat" where
  "math_radians x = fmul x degToRad"

fun math_cos :: "pyfloat \<Rightarrow> py_error + pyfloat" where
  "math_cos (Finite x) = Inr (round64 (cos (val x)))"
| "math_cos NaN = Inr NaN"
| "math_cos PosInf = Inl ValueError"
| "math_cos NegInf = Inl ValueError"

fun math_sin :: "pyfloat \<Rightarrow> py_error + pyfloat" where
  "math_sin (Finite x) = Inr (round64 (sin (val x)))"
| "math_sin NaN = Inr NaN"
| "math_sin PosInf = Inl ValueError"
| "math_sin NegInf = Inl ValueError"

text \<open>\<^verbatim>\<open>d[k]\<close> on a dict (its items in insertion order): \<^verbatim>\<open>KeyError\<close> on a missing key.\<close>

definition getitem :: "(string \<times> 'v) list \<Rightarrow> string \<Rightarrow> py_error + 'v" where
  "getitem d k = (case map_of d k of None \<Rightarrow> Inl (KeyError k) | Some v \<Rightarrow> Inr v)"

text \<open>\<^verbatim>\<open>xs[j]\<close> on a list: negative indices count from the end, \<^verbatim>\<open>IndexError\<close> out of range.\<close>

definition getindex :: "'a list \<Rightarrow> int \<Rightarrow> py_error + 'a" where
  "getindex xs j =
     (let n = int (length xs); k = (if j < 0 then n + j else j)
      in if 0 \<le> k \<and> k < n then Inr (xs ! nat k) else Inl IndexError)"

section \<open>The club selector\<close>

text \<open>The local dict \<^verbatim>\<open>CLUB_DISTANCES\<close> of \<^verbatim>\<open>suggest_club_and_percentage\<close>, as its items.\<close>

definition CLUB_DISTANCES :: "(string \<times> int) list" where
  "CLUB_DISTANCES =
    [(''Driver'', 280),
     (''3-Wood'', 240),
     (''Hybrid'', 225),
     (''3-Iron'', 228),
     (''4-Iron'', 212),
     (''5-Iron'', 197),
     (''6-Iron'', 181),
     (''7-Iron'', 165),
     (''8-Iron'', 149),
     (''9-Iron'', 133),
     (''Pitching Wedge'', 110),
     (''Sand Wedge'', 105),
     (''Lob Wedge'', 80)]"

text \<open>
  \<^verbatim>\<open>sorted(CLUB_DISTANCES.items(), key=lambda item: item[1])\<close>: a stable ascending sort
  on the distance.
\<close>

definition sorted_clubs :: "(string \<times> int) list" where
  "sorted_clubs = sort_key snd CLUB_DISTANCES"

text \<open>The expression \<^verbatim>\<open>(adjusted_distance / distance) * 100\<close>.\<close>

definition percentage_of :: "pyfloat \<Rightarrow> int \<Rightarrow> py_error + pyfloat" where
  "percentage_of adjusted_distance distance =
     (case fdiv adjusted_distance (float_of_int distance) of
        Inl e \<Rightarrow> Inl e
      | Inr q \<Rightarrow> Inr (fmul q (float_of_int 100)))"

text \<open>
  The \<^verbatim>\<open>for i, (club, distance) in enumerate(sorted_clubs)\<close> loop: \<open>cs\<close> is the whole
  list, \<open>i\<close> the index of the head of the entries still to visit. \<open>None\<close> means the loop
  ended without returning.
\<close>

fun scan :: "(string \<times> int) list \<Rightarrow> pyfloat \<Rightarrow> nat \<Rightarrow> (string \<times> int) list
    \<Rightarrow> (py_error + string \<times> pyfloat) option" where
  "scan cs adjusted_distance i [] = None"
| "scan cs adjusted_distance i ((club, distance) # rest) =
     (if fle adjusted_distance (float_of_int distance) then
        Some (case percentage_of adjusted_distance distance of
            Inl e \<Rightarrow> Inl e
          | Inr percentage \<Rightarrow>
              if fgt percentage (float_of_int 100) \<and> int i < int (length cs) - 1 then
                (case getindex cs (int i + 1) of
                   Inl e \<Rightarrow> Inl e
                 | Inr (next_club, next_distance) \<Rightarrow>
                     (case percentage_of adjusted_distance next_distance of
                        Inl e \<Rightarrow> Inl e
                      | Inr percentage' \<Rightarrow> Inr (next_club, percentage')))
              else Inr (club, percentage))
      else scan cs adjusted_distance (Suc i) rest)"

definition suggest_club_and_percentage :: "pyfloat \<Rightarrow> py_error + string \<times> pyfloat" where
  "suggest_club_and_percentage adjusted_distance =
     (case scan sorted_clubs adjusted_distance 0 sorted_clubs of
        Some r \<Rightarrow> r
      | None \<Rightarrow>
          (case getindex sorted_clubs (- 1) of
             Inl e \<Rightarrow> Inl e
           | Inr (club, distance) \<Rightarrow>
               (case percentage_of adjusted_distance distance of
                  Inl e \<Rightarrow> Inl e
                | Inr percentage \<Rightarrow> Inr (club, percentage))))"

text \<open>The guard of the loop, \<^verbatim>\<open>adjusted_distance <= distance\<close>, on a table entry.\<close>

definition matches :: "pyfloat \<Rightarrow> string \<times> int \<Rightarrow> bool" where
  "matches adjusted_distance entry = fle adjusted_distance (float_of_int (snd entry))"

text \<open>
  The situation the one-step lookahead is written for: the first entry whose baseline is
  at least the distance gives a percentage above 100 while an entry with a longer
  baseline exists.
\<close>

definition edge_case_reached :: "pyfloat \<Rightarrow> bool" where
  "edge_case_reached adjusted_distance =
     (case find (matches adjusted_distance) sorted_clubs of
        None \<Rightarrow> False
      | Some (club, baseline) \<Rightarrow>
          (case percentage_of adjusted_distance baseline of
             Inl e \<Rightarrow> False
           | Inr percentage \<Rightarrow>
               fgt percentage (float_of_int 100) \<and>
               list_ex (\<lambda>(c, b). baseline < b) sorted_clubs))"

section \<open>The shot adjuster\<close>

text \<open>The module-level dict \<^verbatim>\<open>CLUB_FACTORS\<close>: club name to a dict of its two factors.\<close>

definition CLUB_FACTORS :: "(string \<times> (string \<times> pyfloat) list) list" where
  "CLUB_FACTORS =
    [(''Driver'', [(''elevation'', py_float 0.25), (''wind'', py_float 0.08)]),
     (''3-Wood'', [(''elevation'', py_float 0.3), (''wind'', py_float 0.09)]),
     (''5-Wood'', [(''elevation'', py_float 0.35), (''wind'', py_float 0.1)]),
     (''Hybrid'', [(''elevation'', py_float 0.38), (''wind'', py_float 0.11)]),
     (''3-Iron'', [(''elevation'', py_float 0.4), (''wind'', py_float 0.12)]),
     (''4-Iron'', [(''elevation'', py_float 0.42), (''wind'', py_float 0.13)]),
     (''5-Iron'', [(''elevation'', py_float 0.44), (''wind'', py_float 0.14)]),
     (''6-Iron'', [(''elevation'', py_float 0.46), (''wind'', py_float 0.15)]),
     (''7-Iron'', [(''elevation'', py_float 0.48), (''wind'', py_float 0.16)]),
     (''8-Iron'', [(''elevation'', py_float 0.5), (''wind'', py_float 0.17)]),
     (''9-Iron'', [(''elevation'', py_float 0.52), (''wind'', py_float 0.18)]),
     (''Pitching Wedge'', [(''elevation'', py_float 0.54), (''wind'', py_float 0.19)]),
     (''Gap Wedge'', [(''elevation'', py_float 0.56), (''wind'', py_float 0.2)]),
     (''Sand Wedge'', [(''elevation'', py_float 0.58), (''wind'', py_float 0.21)]),
     (''Lob Wedge'', [(''elevation'', py_float 0.6), (''wind'', py_float 0.22)])]"

text \<open>\<^verbatim>\<open>CLUB_FACTORS[club][field]\<close>: either subscript may raise \<^verbatim>\<open>KeyError\<close>.\<close>

definition club_factor :: "string \<Rightarrow> string \<Rightarrow> py_error + pyfloat" where
  "club_factor club field =
     (case getitem CLUB_FACTORS club of
        Inl e \<Rightarrow> Inl e
      | Inr factors \<Rightarrow> getitem factors field)"

definition calculate_adjusted_shot ::
    "pyfloat \<Rightarrow> pyfloat \<Rightarrow> pyfloat \<Rightarrow> pyfloat \<Rightarrow> string \<Rightarrow> py_error + pyfloat \<times> pyfloat" where
  "calculate_adjusted_shot base_distance elevation wind_speed wind_angle_deg club =
     (case club_factor club ''elevation'' of
        Inl e \<Rightarrow> Inl e
      | Inr elevation_factor \<Rightarrow>
     (case club_factor club ''wind'' of
        Inl e \<Rightarrow> Inl e
      | Inr wind_factor \<Rightarrow>
     (let elevation_adjustment = fmul (fmul elevation (py_float 0.33)) elevation_factor;
          wind_angle_rad = math_radians wind_angle_deg
      in case math_cos wind_angle_rad of
        Inl e \<Rightarrow> Inl e
      | Inr c \<Rightarrow>
     (let effective_wind_speed = fmul wind_speed c;
          wind_adjustment = fmul effective_wind_speed wind_factor;
          adjusted_distance = fadd (fadd base_distance elevation_adjustment) wind_adjustment
      in case math_sin wind_angle_rad of
        Inl e \<Rightarrow> Inl e
      | Inr s \<Rightarrow>
     (let lateral_wind_speed = fmul wind_speed s;
          lateral_adjustment = fmul lateral_wind_speed wind_factor
      in Inr (adjusted_distance, lateral_adjustment))))))"

section \<open>The shot adjuster as the specification words it\<close>


text \<open>
  Cosine and sine as plain float functions, the way a formula uses them: an infinite
  argument gives NaN and nothing is raised.
\<close>

fun float_cos :: "pyfloat \<Rightarrow> pyfloat" where
  "float_cos (Finite x) = round64 (cos (val x))"
| "float_cos a = NaN"

fun float_sin :: "pyfloat \<Rightarrow> pyfloat" where
  "float_sin (Finite x) = round64 (sin (val x))"
| "float_sin a = NaN"

text \<open>
  The seven steps of the specification's algorithm for \<open>adjustShot\<close>, from the two
  factors of the club: the pair (adjustedDistance, lateralAdjustment).
\<close>

definition adjustShot_formula ::
    "pyfloat \<Rightarrow> pyfloat \<Rightarrow> pyfloat \<Rightarrow> pyfloat \<Rightarrow> pyfloat \<Rightarrow> pyfloat \<Rightarrow> pyfloat \<times> pyfloat" where
  "adjustShot_formula base elevationChange windSpeed windAngleDeg elevationFactor windFactor =
     (let elevationAdjustment = fmul (fmul elevationChange (py_float 0.33)) elevationFactor;
          windAngleRad = math_radians windAngleDeg;
          effectiveWindSpeed = fmul windSpeed (float_cos windAngleRad);
          windAdjustment = fmul effectiveWindSpeed windFactor;
          adjustedDistance = fadd (fadd base elevationAdjustment) windAdjustment;
          lateralWindSpeed = fmul windSpeed (float_sin windAngleRad);
          lateralAdjustment = fmul lateralWindSpeed windFactor
      in (adjustedDistance, lateralAdjustment))"

section \<open>Facts about rounding\<close>

lemma rhe_of_int [simp]: "rhe (of_int n) = n"
  by (simp add: rhe_def)

lemma rhe_0 [simp]: "rhe 0 = 0"
  by (simp add: rhe_def)

lemma rhe_bounds: "\<lfloor>y\<rfloor> \<le> rhe y \<and> rhe y \<le> \<lfloor>y\<rfloor> + 1"
  by (simp add: rhe_def Let_def)

lemma rhe_mono:
  assumes "x \<le> y"
  shows "rhe x \<le> rhe y"
proof (cases "\<lfloor>x\<rfloor> = \<lfloor>y\<rfloor>")
  case True
  have "x - of_int \<lfloor>x\<rfloor> \<le> y - of_int \<lfloor>y\<rfloor>" using assms True by simp
  then show ?thesis
    unfolding rhe_def Let_def True by auto
next
  case False
  with assms have "\<lfloor>x\<rfloor> < \<lfloor>y\<rfloor>" using floor_mono [OF assms] by linarith
  then have "\<lfloor>x\<rfloor> + 1 \<le> \<lfloor>y\<rfloor>" by simp
  with rhe_bounds [of x] rhe_bounds [of y] show ?thesis by linarith
qed

lemma rhe_minus: "rhe (- y) = - rhe y"
proof (cases "y = of_int \<lfloor>y\<rfloor>")
  case True
  then obtain n where "y = of_int n" ..
  then show ?thesis by (simp flip: of_int_minus)
next
  case False
  then have fl: "\<lfloor>- y\<rfloor> = - \<lfloor>y\<rfloor> - 1"
    by (metis ceiling_altdef ceiling_def add_diff_cancel minus_diff_eq minus_minus of_int_floor_cancel
        uminus_add_conv_diff)
  show ?thesis
    unfolding rhe_def Let_def fl
    by (auto simp: algebra_simps)
qed

lemma rhe_abs_le:
  assumes "\<bar>y\<bar> \<le> real_of_int n"
  shows "\<bar>rhe y\<bar> \<le> n"
proof -
  from assms have "y \<le> real_of_int n" "real_of_int (- n) \<le> y" by simp_all
  from rhe_mono [OF this(1)] rhe_mono [OF this(2)]
  have "rhe y \<le> n" "- n \<le> rhe y" by (simp_all only: rhe_of_int)
  then show ?thesis by linarith
qed

lemma floor_log2_iff:
  assumes "0 < x"
  shows "\<lfloor>log 2 x\<rfloor> = k \<longleftrightarrow> 2 powi k \<le> x \<and> x < 2 powi (k + 1)"
proof -
  have a: "(2::real) powr real_of_int k = 2 powi k"
    by (rule powr_real_of_int') simp_all
  have b: "(2::real) powr real_of_int (k + 1) = 2 powi (k + 1)"
    by (rule powr_real_of_int') simp_all
  have "\<lfloor>log 2 x\<rfloor> = k \<longleftrightarrow> 2 powr real_of_int k \<le> x \<and> x < 2 powr real_of_int (k + 1)"
    by (rule floor_log_eq_powr_iff [OF assms]) simp
  then show ?thesis by (simp only: a b)
qed

lemma powi_le: "i \<le> j \<Longrightarrow> (2::real) powi i \<le> 2 powi j"
  by (rule power_int_increasing) simp_all

lemma powi_less: "i < j \<Longrightarrow> (2::real) powi i < 2 powi j"
  by (rule power_int_strict_increasing) simp_all

lemma powi_less_iff: "(2::real) powi i < 2 powi j \<longleftrightarrow> i < j"
  using powi_le [of j i] powi_less [of i j] by (auto simp: not_less [symmetric])

lemma powi_split: "(2::real) powi (e + 1) = 2 powi (e - 52) * 2 ^ 53"
proof -
  have "(2::real) powi ((e - 52) + 53) = 2 powi (e - 52) * 2 powi 53"
    by (rule power_int_add) simp
  moreover have "e - 52 + 53 = e + 1" by simp
  ultimately show ?thesis by simp
qed

lemma powi_split': "(2::real) powi e = 2 powi (e - 52) * 2 ^ 52"
proof -
  have "(2::real) powi ((e - 52) + 52) = 2 powi (e - 52) * 2 powi 52"
    by (rule power_int_add) simp
  then show ?thesis by simp
qed

lemma expo_ge: "- 1022 \<le> expo x"
  by (simp add: expo_def)

lemma expo_minus [simp]: "expo (- x) = expo x"
  by (simp add: expo_def)

lemma expo_upper:
  assumes "x \<noteq> 0"
  shows "\<bar>x\<bar> < 2 powi (expo x + 1)"
proof -
  from assms have pos: "0 < \<bar>x\<bar>" by simp
  define k where "k = \<lfloor>log 2 \<bar>x\<bar>\<rfloor>"
  from floor_log2_iff [OF pos, of k] have "\<bar>x\<bar> < 2 powi (k + 1)" by (simp add: k_def)
  also have "\<dots> \<le> 2 powi (expo x + 1)" by (rule powi_le) (simp add: expo_def k_def)
  finally show ?thesis .
qed

lemma expo_lower:
  assumes "x \<noteq> 0" "- 1022 < expo x"
  shows "2 powi (expo x) \<le> \<bar>x\<bar>"
proof -
  from assms have pos: "0 < \<bar>x\<bar>" by simp
  define k where "k = \<lfloor>log 2 \<bar>x\<bar>\<rfloor>"
  from assms(2) have "expo x = k" by (simp add: expo_def k_def max_def split: if_splits)
  with floor_log2_iff [OF pos, of k] show ?thesis by (simp add: k_def)
qed

lemma expo_eq_normal:
  assumes "2 powi e \<le> \<bar>x\<bar>" "\<bar>x\<bar> < 2 powi (e + 1)" "- 1022 \<le> e"
  shows "expo x = e"
proof -
  have "0 < (2::real) powi e" by simp
  with assms(1) have pos: "0 < \<bar>x\<bar>" by linarith
  from floor_log2_iff [OF pos, of e] assms have "\<lfloor>log 2 \<bar>x\<bar>\<rfloor> = e" by simp
  with assms(3) show ?thesis by (simp add: expo_def)
qed

lemma expo_eq_sub:
  assumes "x \<noteq> 0" "\<bar>x\<bar> < 2 powi (- 1022)"
  shows "expo x = - 1022"
proof (rule ccontr)
  assume "expo x \<noteq> - 1022"
  with expo_ge [of x] have gt: "- 1022 < expo x" by linarith
  from expo_lower [OF assms(1) gt] assms(2) have "(2::real) powi (expo x) < 2 powi (- 1022)"
    by linarith
  then have "expo x < - 1022" by (simp only: powi_less_iff)
  with gt show False by simp
qed

lemma expo_mono:
  assumes "x \<noteq> 0" "\<bar>x\<bar> \<le> \<bar>y\<bar>"
  shows "expo x \<le> expo y"
proof -
  from assms have "0 < \<bar>x\<bar>" "0 < \<bar>y\<bar>" by auto
  with assms(2) have "log 2 \<bar>x\<bar> \<le> log 2 \<bar>y\<bar>" by simp
  then have "\<lfloor>log 2 \<bar>x\<bar>\<rfloor> \<le> \<lfloor>log 2 \<bar>y\<bar>\<rfloor>" by (rule floor_mono)
  then show ?thesis by (simp add: expo_def)
qed

lemma rnd_0 [simp]: "rnd 0 = 0"
  by (simp add: rnd_def)

lemma rnd_minus: "rnd (- x) = - rnd x"
  by (simp add: rnd_def rhe_minus)

lemma rnd_nonneg:
  assumes "0 \<le> x"
  shows "0 \<le> rnd x"
proof (cases "x = 0")
  case False
  have "0 \<le> x / 2 powi (expo x - 52)" using assms by simp
  then have "rhe 0 \<le> rhe (x / 2 powi (expo x - 52))" by (rule rhe_mono)
  then have "0 \<le> rhe (x / 2 powi (expo x - 52))" by simp
  then show ?thesis using False by (simp add: rnd_def)
qed simp

lemma rnd_upper:
  assumes "0 < x"
  shows "rnd x \<le> 2 powi (expo x + 1)"
proof -
  let ?u = "(2::real) powi (expo x - 52)"
  have u: "0 < ?u" by simp
  from assms have "x \<noteq> 0" by simp
  from expo_upper [OF this] assms have "x < ?u * 2 ^ 53" by (simp add: powi_split)
  then have "x / ?u \<le> 2 ^ 53" using u by (simp add: field_simps)
  then have "rhe (x / ?u) \<le> rhe (2 ^ 53)" by (rule rhe_mono)
  also have "rhe (2 ^ 53) = 2 ^ 53" using rhe_of_int [of "2 ^ 53"] by simp
  finally have "real_of_int (rhe (x / ?u)) \<le> real_of_int (2 ^ 53)" by (simp only: of_int_le_iff)
  then have "real_of_int (rhe (x / ?u)) \<le> 2 ^ 53" by simp
  then have "?u * real_of_int (rhe (x / ?u)) \<le> ?u * 2 ^ 53" using u by simp
  then show ?thesis using \<open>x \<noteq> 0\<close> by (simp add: rnd_def powi_split)
qed

lemma rnd_lower:
  assumes "0 < x" "- 1022 < expo x"
  shows "2 powi (expo x) \<le> rnd x"
proof -
  let ?u = "(2::real) powi (expo x - 52)"
  have u: "0 < ?u" by simp
  from assms have "x \<noteq> 0" by simp
  from expo_lower [OF this assms(2)] assms have "2 powi (expo x) \<le> x" by simp
  then have "?u * 2 ^ 52 \<le> x" by (simp only: powi_split' [symmetric])
  then have "2 ^ 52 \<le> x / ?u" using u by (simp add: field_simps)
  then have "rhe (2 ^ 52) \<le> rhe (x / ?u)" by (rule rhe_mono)
  moreover have "rhe (2 ^ 52) = 2 ^ 52" using rhe_of_int [of "2 ^ 52"] by simp
  ultimately have "real_of_int (2 ^ 52) \<le> real_of_int (rhe (x / ?u))" by (simp only: of_int_le_iff)
  then have "2 ^ 52 \<le> real_of_int (rhe (x / ?u))" by simp
  then have "?u * 2 ^ 52 \<le> ?u * real_of_int (rhe (x / ?u))" using u by simp
  then have "2 powi (expo x) \<le> ?u * real_of_int (rhe (x / ?u))"
    by (simp only: powi_split' [symmetric])
  then show ?thesis using \<open>x \<noteq> 0\<close> by (simp add: rnd_def)
qed

lemma rnd_mono_pos:
  assumes "0 < x" "x \<le> y"
  shows "rnd x \<le> rnd y"
proof -
  from assms have y: "0 < y" by simp
  from assms have "x \<noteq> 0" "y \<noteq> 0" by simp_all
  from assms have le: "expo x \<le> expo y" by (intro expo_mono) simp_all
  show ?thesis
  proof (cases "expo x = expo y")
    case True
    let ?u = "(2::real) powi (expo y - 52)"
    have "x / ?u \<le> y / ?u" using assms by (simp add: divide_right_mono)
    then have "rhe (x / ?u) \<le> rhe (y / ?u)" by (rule rhe_mono)
    then have "?u * real_of_int (rhe (x / ?u)) \<le> ?u * real_of_int (rhe (y / ?u))" by simp
    then show ?thesis using \<open>x \<noteq> 0\<close> \<open>y \<noteq> 0\<close> True by (simp add: rnd_def)
  next
    case False
    with le have lt: "expo x < expo y" by simp
    with expo_ge [of x] have "- 1022 < expo y" by linarith
    from rnd_lower [OF y this] have "2 powi (expo y) \<le> rnd y" .
    moreover have "(2::real) powi (expo x + 1) \<le> 2 powi (expo y)"
      by (rule powi_le) (use lt in simp)
    moreover note rnd_upper [OF assms(1)]
    ultimately show ?thesis by linarith
  qed
qed

text \<open>Rounding is monotone.\<close>

lemma rnd_mono:
  assumes "x \<le> y"
  shows "rnd x \<le> rnd y"
proof -
  consider "0 < x" | "x \<le> 0" "0 \<le> y" | "y < 0" using assms by linarith
  then show ?thesis
  proof cases
    case 1
    then show ?thesis using assms by (rule rnd_mono_pos)
  next
    case 2
    from rnd_nonneg [of "- x"] 2 have "rnd x \<le> 0" by (simp add: rnd_minus)
    moreover from rnd_nonneg [of y] 2 have "0 \<le> rnd y" by simp
    ultimately show ?thesis by linarith
  next
    case 3
    with assms have "0 < - y" "- y \<le> - x" by simp_all
    from rnd_mono_pos [OF this] show ?thesis by (simp add: rnd_minus)
  qed
qed

text \<open>A number with at most 53 significant bits above the subnormal spacing is a fixed point.\<close>

lemma rnd_fix:
  assumes "\<bar>n\<bar> < 2 ^ 53" "- 1074 \<le> j"
  shows "rnd (of_int n * 2 powi j) = of_int n * 2 powi j"
proof (cases "n = 0")
  case False
  let ?x = "real_of_int n * 2 powi j"
  have x: "?x \<noteq> 0" using False by simp
  have "expo ?x \<le> j + 52"
  proof (cases "expo ?x = - 1022")
    case True
    with assms(2) show ?thesis by simp
  next
    case False
    with expo_ge [of ?x] have "- 1022 < expo ?x" by linarith
    from expo_lower [OF x this] have "2 powi (expo ?x) \<le> \<bar>?x\<bar>" .
    also have "\<bar>?x\<bar> = real_of_int \<bar>n\<bar> * 2 powi j" by (simp add: abs_mult)
    also have "\<dots> < 2 ^ 53 * 2 powi j"
    proof -
      from assms(1) have "real_of_int \<bar>n\<bar> < real_of_int (2 ^ 53)" by (simp only: of_int_less_iff)
      then show ?thesis by simp
    qed
    also have "\<dots> = 2 powi (j + 53)" by (subst power_int_add) simp_all
    finally have "expo ?x < j + 53" by (simp only: powi_less_iff)
    then show ?thesis by simp
  qed
  define e where "e = expo ?x"
  from \<open>expo ?x \<le> j + 52\<close> have k: "0 \<le> j - (e - 52)" by (simp add: e_def)
  define d where "d = nat (j - (e - 52))"
  have "(2::real) powi ((e - 52) + int d) = 2 powi (e - 52) * 2 powi (int d)"
    by (rule power_int_add) simp
  moreover have "(e - 52) + int d = j" using k by (simp add: d_def)
  ultimately have j: "(2::real) powi j = 2 powi (e - 52) * 2 ^ d" by simp
  have "real_of_int n * 2 powi j / 2 powi (e - 52) = real_of_int (n * 2 ^ d)"
    by (simp add: j)
  then have "rhe (real_of_int n * 2 powi j / 2 powi (e - 52)) = n * 2 ^ d"
    by (simp only: rhe_of_int)
  then have "rnd ?x = 2 powi (e - 52) * real_of_int (n * 2 ^ d)"
    using x unfolding rnd_def e_def by simp
  also have "\<dots> = real_of_int n * (2 powi (e - 52) * 2 ^ d)" by simp
  also have "\<dots> = ?x" by (simp only: j)
  finally show ?thesis .
qed simp

lemma rnd_int:
  assumes "\<bar>n\<bar> < 2 ^ 53"
  shows "rnd (real_of_int n) = real_of_int n"
  using rnd_fix [OF assms, of 0] by simp

lemma rnd_repr:
  "\<exists>m k. rnd x = real_of_int m * 2 powi k \<and> \<bar>m\<bar> \<le> 2 ^ 53 \<and> - 1074 \<le> k"
proof (cases "x = 0")
  case True
  then show ?thesis by (intro exI [of _ 0]) simp
next
  case False
  let ?u = "(2::real) powi (expo x - 52)"
  have u: "0 < ?u" by simp
  from expo_upper [OF False] have "\<bar>x\<bar> < ?u * 2 ^ 53" by (simp only: powi_split)
  then have "\<bar>x\<bar> / ?u \<le> 2 ^ 53" using u by (simp add: field_simps)
  then have "\<bar>x / ?u\<bar> \<le> real_of_int (2 ^ 53)" by simp
  then have "\<bar>rhe (x / ?u)\<bar> \<le> 2 ^ 53" by (rule rhe_abs_le)
  moreover have "- 1074 \<le> expo x - 52" using expo_ge [of x] by simp
  moreover have "rnd x = real_of_int (rhe (x / ?u)) * ?u" using False by (simp add: rnd_def)
  ultimately show ?thesis by blast
qed

text \<open>Rounding is idempotent: a rounded value is a float, or out of range.\<close>

lemma rnd_idem [simp]: "rnd (rnd x) = rnd x"
proof -
  from rnd_repr [of x] obtain m k
    where r: "rnd x = real_of_int m * 2 powi k" and m: "\<bar>m\<bar> \<le> 2 ^ 53" and k: "- 1074 \<le> k"
    by blast
  show ?thesis
  proof (cases "\<bar>m\<bar> < 2 ^ 53")
    case True
    from rnd_fix [OF True k] show ?thesis by (simp only: r)
  next
    case False
    with m have "\<bar>m\<bar> = 2 ^ 53" by simp
    then consider "m = 2 ^ 53" | "m = - (2 ^ 53)" by (auto simp: abs_if split: if_splits)
    then have "\<exists>s. \<bar>s\<bar> < 2 ^ 53 \<and> rnd x = real_of_int s * 2 powi (k + 53)"
    proof cases
      case 1
      have "(2::real) powi (k + 53) = 2 powi k * 2 powi 53" by (rule power_int_add) simp
      then have "rnd x = real_of_int 1 * 2 powi (k + 53)" by (simp add: r 1)
      then show ?thesis by (intro exI [of _ 1]) simp
    next
      case 2
      have "(2::real) powi (k + 53) = 2 powi k * 2 powi 53" by (rule power_int_add) simp
      then have "rnd x = real_of_int (- 1) * 2 powi (k + 53)" by (simp add: r 2)
      then show ?thesis by (intro exI [of _ "- 1"]) simp
    qed
    then obtain s where s: "\<bar>s\<bar> < 2 ^ 53" "rnd x = real_of_int s * 2 powi (k + 53)" by blast
    have "- 1074 \<le> k + 53" using k by simp
    from rnd_fix [OF s(1) this] show ?thesis by (simp only: s(2))
  qed
qed

text \<open>How a rounding is computed once the exponent of the argument is known.\<close>

lemma rnd_eval_normal:
  assumes "2 powi e \<le> \<bar>x\<bar>" "\<bar>x\<bar> < 2 powi (e + 1)" "- 1022 \<le> e"
  shows "rnd x = 2 powi (e - 52) * real_of_int (rhe (x / 2 powi (e - 52)))"
proof -
  have "0 < (2::real) powi e" by simp
  with assms(1) have "0 < \<bar>x\<bar>" by linarith
  then have "x \<noteq> 0" by simp
  with expo_eq_normal [OF assms] show ?thesis by (simp add: rnd_def)
qed

lemma rnd_eval_sub:
  assumes "\<bar>x\<bar> < 2 powi (- 1022)"
  shows "rnd x = 2 powi (- 1074) * real_of_int (rhe (x / 2 powi (- 1074)))"
proof (cases "x = 0")
  case True
  then show ?thesis by simp
next
  case False
  from expo_eq_sub [OF False assms] False show ?thesis by (simp add: rnd_def)
qed

lemma rnd_abs_le:
  assumes "\<bar>x\<bar> \<le> c" "rnd c = c"
  shows "\<bar>rnd x\<bar> \<le> c"
proof -
  from assms(1) have "x \<le> c" "- c \<le> x" by simp_all
  from rnd_mono [OF this(1)] rnd_mono [OF this(2)] assms(2) show ?thesis
    by (simp add: rnd_minus)
qed

lemma rnd_pos_iff: "0 < rnd x \<Longrightarrow> 0 < x"
proof (rule ccontr)
  assume "0 < rnd x" "\<not> 0 < x"
  then have "0 \<le> - x" by simp
  from rnd_nonneg [OF this] \<open>0 < rnd x\<close> show False by (simp add: rnd_minus)
qed

section \<open>Facts about floats\<close>

lemma val_double: "is_double (val d)"
  using Rep_double [of d] by (simp add: val_def)

lemma rnd_val [simp]: "rnd (val d) = val d"
  using val_double [of d] by (simp add: is_double_def)

lemma val_bound: "\<bar>val d\<bar> < 2 ^ 1024"
  using val_double [of d] by (simp add: is_double_def)

lemma val_Abs: "is_double x \<Longrightarrow> val (Abs_double x) = x"
  by (simp add: val_def Abs_double_inverse)

lemma Abs_val [simp]: "Abs_double (val d) = d"
  by (simp add: val_def Rep_double_inverse)

lemma round64_val [simp]: "round64 (val d) = Finite d"
  using val_bound [of d] by (simp add: round64_def)

lemma is_double_dyadic:
  assumes "\<bar>n\<bar> < 2 ^ 53" "- 1074 \<le> j" "j \<le> 971"
  shows "is_double (real_of_int n * 2 powi j)"
proof -
  have "\<bar>real_of_int n * 2 powi j\<bar> = real_of_int \<bar>n\<bar> * 2 powi j" by (simp add: abs_mult)
  also have "\<dots> \<le> real_of_int \<bar>n\<bar> * 2 powi 971"
    by (intro mult_left_mono powi_le assms) simp
  also have "\<dots> < 2 ^ 53 * 2 powi 971"
  proof -
    from assms(1) have "real_of_int \<bar>n\<bar> < real_of_int (2 ^ 53)" by (simp only: of_int_less_iff)
    then show ?thesis by simp
  qed
  also have "\<dots> = 2 ^ 1024" by simp
  finally show ?thesis using rnd_fix [OF assms(1,2)] by (simp add: is_double_def)
qed

lemma is_double_int: "\<bar>n\<bar> < 2 ^ 53 \<Longrightarrow> is_double (real_of_int n)"
  using is_double_dyadic [of n 0] by simp

lemma is_double_rnd: "\<bar>rnd x\<bar> < 2 ^ 1024 \<Longrightarrow> is_double (rnd x)"
  by (simp add: is_double_def)

lemma round64_finite:
  assumes "\<bar>rnd x\<bar> < 2 ^ 1024"
  shows "\<exists>d. round64 x = Finite d \<and> val d = rnd x"
proof -
  have "is_double (rnd x)" using assms by (rule is_double_rnd)
  then have "val (Abs_double (rnd x)) = rnd x" by (rule val_Abs)
  then show ?thesis using assms by (simp add: round64_def)
qed

text \<open>The three outcomes of rounding an exact result to a float.\<close>

lemma round64_cases:
  obtains d where "round64 x = Finite d" "val d = rnd x"
  | "round64 x = PosInf" "0 < x" "2 ^ 1024 \<le> rnd x"
  | "round64 x = NegInf" "x < 0" "rnd x \<le> - (2 ^ 1024)"
proof (cases "\<bar>rnd x\<bar> < 2 ^ 1024")
  case True
  from round64_finite [OF this] that(1) show ?thesis by blast
next
  case False
  then have big: "2 ^ 1024 \<le> \<bar>rnd x\<bar>" by simp
  show ?thesis
  proof (cases "0 < x")
    case True
    then have "0 \<le> rnd x" by (intro rnd_nonneg) simp
    with big True that(2) show ?thesis by (simp add: round64_def inf_of_def)
  next
    case False
    then have "0 \<le> rnd (- x)" by (intro rnd_nonneg) simp
    then have le: "rnd x \<le> 0" by (simp add: rnd_minus)
    with big have neg: "rnd x \<le> - (2 ^ 1024)" by simp
    then have "x \<noteq> 0" by auto
    with neg False big that(3) show ?thesis by (simp add: round64_def inf_of_def)
  qed
qed

lemma py_float_double:
  assumes "is_double x"
  shows "py_float x = Finite (Abs_double x)"
  using assms by (simp add: py_float_def round64_def is_double_def)

lemma py_float_val: "is_double x \<Longrightarrow> \<exists>d. py_float x = Finite d \<and> val d = x"
  by (simp add: py_float_double val_Abs)

lemma py_float_rnd: "py_float (rnd x) = py_float x"
proof (cases "2 ^ 1024 \<le> \<bar>rnd x\<bar>")
  case True
  have "0 < rnd x \<longleftrightarrow> 0 < x"
  proof
    assume "0 < rnd x"
    then show "0 < x" by (rule rnd_pos_iff)
  next
    assume "0 < x"
    then have "0 \<le> rnd x" by (intro rnd_nonneg) simp
    with True show "0 < rnd x" by auto
  qed
  with True show ?thesis by (simp add: py_float_def round64_def)
next
  case False
  then show ?thesis by (simp add: py_float_def round64_def)
qed

lemma py_float_eval: "rnd x = c \<Longrightarrow> py_float x = py_float c"
  using py_float_rnd [of x] by simp

lemma float_of_int_eq: "float_of_int n = py_float (real_of_int n)"
  by (simp add: float_of_int_def py_float_def)

lemma float_of_int_val:
  assumes "\<bar>n\<bar> < 2 ^ 53"
  shows "\<exists>d. float_of_int n = Finite d \<and> val d = real_of_int n"
  unfolding float_of_int_eq using is_double_int [OF assms] by (rule py_float_val)

lemma fdiv_double:
  assumes "is_double a" "is_double b" "b \<noteq> 0"
  shows "fdiv (py_float a) (py_float b) = Inr (py_float (a / b))"
  using assms by (simp add: py_float_double val_Abs) (simp add: py_float_def)

lemma fmul_double:
  assumes "is_double a" "is_double b"
  shows "fmul (py_float a) (py_float b) = py_float (a * b)"
  using assms by (simp add: py_float_double val_Abs) (simp add: py_float_def)

lemma fadd_double:
  assumes "is_double a" "is_double b"
  shows "fadd (py_float a) (py_float b) = py_float (a + b)"
  using assms by (simp add: py_float_double val_Abs) (simp add: py_float_def)

lemma fle_double:
  assumes "is_double a" "is_double b"
  shows "fle (py_float a) (py_float b) \<longleftrightarrow> a \<le> b"
  using assms by (simp add: py_float_double val_Abs)

lemma flt_double:
  assumes "is_double a" "is_double b"
  shows "flt (py_float a) (py_float b) \<longleftrightarrow> a < b"
  using assms by (simp add: py_float_double val_Abs)

lemma fadd_NaN_right [simp]: "fadd a NaN = NaN"
  by (cases a) auto

lemma fmul_NaN_right [simp]: "fmul a NaN = NaN"
  by (cases a) auto

lemma is_finite_iff: "is_finite a \<longleftrightarrow> (\<exists>x. a = Finite x)"
  by (cases a) auto

lemma fgt_not_fle: "fgt a b \<Longrightarrow> \<not> fle a b"
  by (cases a; cases b) (auto simp: fgt_def)

lemma not_fgt_cases: "\<not> fgt a b \<Longrightarrow> a = NaN \<or> b = NaN \<or> fle a b"
  by (cases a; cases b) (auto simp: fgt_def)

lemma round64_small:
  assumes "\<bar>x\<bar> \<le> 1"
  shows "\<exists>d. round64 x = Finite d \<and> val d = rnd x \<and> \<bar>val d\<bar> \<le> 1"
proof -
  have "rnd 1 = 1" using rnd_int [of 1] by simp
  with rnd_abs_le [OF assms] have le: "\<bar>rnd x\<bar> \<le> 1" by simp
  then have "\<bar>rnd x\<bar> < 2 ^ 1024" by (rule le_less_trans) simp
  from round64_finite [OF this] le show ?thesis by auto
qed

lemma py_float_small: "\<bar>x\<bar> \<le> 1 \<Longrightarrow> is_finite (py_float x)"
  using round64_small [of x] by (auto simp: py_float_def)

section \<open>Facts about the club selector\<close>

lemma sorted_clubs_eq:
  "sorted_clubs =
    [(''Lob Wedge'', 80), (''Sand Wedge'', 105), (''Pitching Wedge'', 110),
     (''9-Iron'', 133), (''8-Iron'', 149), (''7-Iron'', 165),
     (''6-Iron'', 181), (''5-Iron'', 197), (''4-Iron'', 212),
     (''Hybrid'', 225), (''3-Iron'', 228), (''3-Wood'', 240),
     (''Driver'', 280)]"
  by (simp add: sorted_clubs_def CLUB_DISTANCES_def)

lemma set_sorted_clubs: "set sorted_clubs = set CLUB_DISTANCES"
  by (simp add: sorted_clubs_def)

text \<open>Every baseline is positive and small enough to be a float itself.\<close>

lemma baselines_ok: "list_all (\<lambda>(c, b). 0 < b \<and> b < 2 ^ 53) sorted_clubs"
  by (simp add: sorted_clubs_eq)

lemma max_baseline: "Max (set (map snd CLUB_DISTANCES)) = 280"
  by (simp add: CLUB_DISTANCES_def)

lemma hundred: "\<exists>h. float_of_int 100 = Finite h \<and> val h = 100"
  using float_of_int_val [of 100] by simp

lemma zero_float: "\<exists>z. py_float 0 = Finite z \<and> val z = 0"
  using py_float_val [of 0] is_double_int [of 0] by simp

text \<open>The division never fails on a positive baseline.\<close>

lemma fdiv_pos:
  assumes "0 < d" "d < 2 ^ 53"
  shows "\<exists>q. fdiv ad (float_of_int d) = Inr q"
proof -
  from assms float_of_int_val [of d] obtain dd
    where dd: "float_of_int d = Finite dd" "val dd = real_of_int d" by auto
  with assms(1) show ?thesis by (cases ad) (simp_all add: dd)
qed

lemma percentage_of_pos:
  assumes "0 < d" "d < 2 ^ 53"
  shows "\<exists>p. percentage_of ad d = Inr p"
  using fdiv_pos [OF assms, of ad] by (auto simp: percentage_of_def)

text \<open>
  Dividing by a positive baseline that is at least the distance gives a quotient that is
  at most 1: rounding is monotone and leaves 1 unchanged.
\<close>

lemma fdiv_le_1:
  assumes "fle ad (float_of_int d)" "0 < d" "d < 2 ^ 53"
  shows "\<exists>q. fdiv ad (float_of_int d) = Inr q \<and> (q = NegInf \<or> (\<exists>qd. q = Finite qd \<and> val qd \<le> 1))"
proof -
  from assms float_of_int_val [of d] obtain dd
    where dd: "float_of_int d = Finite dd" "val dd = real_of_int d" by auto
  have one: "rnd 1 = 1" using rnd_int [of 1] by simp
  show ?thesis
  proof (cases ad)
    case (Finite a)
    with assms(1) dd have "val a \<le> real_of_int d" by simp
    with assms(2) have "val a / real_of_int d \<le> 1" by (simp add: field_simps)
    from rnd_mono [OF this] one have le: "rnd (val a / real_of_int d) \<le> 1" by simp
    have q: "fdiv ad (float_of_int d) = Inr (round64 (val a / real_of_int d))"
      using assms(2) by (simp add: Finite dd)
    show ?thesis
    proof (cases "val a / real_of_int d" rule: round64_cases)
      case (1 qd)
      with le q show ?thesis by simp
    next
      case 2
      with le have "(2::real) ^ 1024 \<le> 1" by linarith
      then show ?thesis by simp
    next
      case 3
      with q show ?thesis by simp
    qed
  next
    case NegInf
    with assms(2) dd show ?thesis by (simp add: inf_of_def)
  next
    case PosInf
    with assms(1) dd show ?thesis by simp
  next
    case NaN
    with assms(1) show ?thesis by simp
  qed
qed

lemma fmul_100_le:
  assumes "q = NegInf \<or> (\<exists>qd. q = Finite qd \<and> val qd \<le> 1)"
  shows "\<not> fgt (fmul q (float_of_int 100)) (float_of_int 100)"
proof -
  from hundred obtain h where h: "float_of_int 100 = Finite h" "val h = 100" by blast
  have c: "rnd 100 = 100" using rnd_int [of 100] by simp
  from assms show ?thesis
  proof
    assume "q = NegInf"
    then show ?thesis by (simp add: h inf_of_def fgt_def)
  next
    assume "\<exists>qd. q = Finite qd \<and> val qd \<le> 1"
    then obtain qd where qd: "q = Finite qd" "val qd \<le> 1" by blast
    then have "val qd * 100 \<le> 100" by simp
    from rnd_mono [OF this] c have le: "rnd (val qd * 100) \<le> 100" by simp
    have p: "fmul q (Finite h) = round64 (val qd * 100)" by (simp add: qd h)
    show ?thesis
    proof (cases "val qd * 100" rule: round64_cases)
      case (1 pd)
      with le show ?thesis by (simp add: h p fgt_def)
    next
      case 2
      with le have "(2::real) ^ 1024 \<le> 100" by linarith
      then show ?thesis by simp
    next
      case 3
      then show ?thesis by (simp add: h p fgt_def)
    qed
  qed
qed

text \<open>
  Against a positive baseline that is at least the distance, the percentage is not
  above 100.
\<close>

lemma percentage_of_le:
  assumes "fle ad (float_of_int d)" "0 < d" "d < 2 ^ 53"
  shows "\<exists>p. percentage_of ad d = Inr p \<and> \<not> fgt p (float_of_int 100)"
proof -
  from fdiv_le_1 [OF assms] obtain q
    where q: "fdiv ad (float_of_int d) = Inr q"
      "q = NegInf \<or> (\<exists>qd. q = Finite qd \<and> val qd \<le> 1)" by blast
  from fmul_100_le [OF q(2)] q(1) show ?thesis by (simp add: percentage_of_def)
qed

lemma percentage_gt_100:
  assumes "percentage_of ad 280 = Inr p" "fgt p (float_of_int 100)"
  shows "fgt ad (float_of_int 280)"
proof (rule ccontr)
  assume "\<not> fgt ad (float_of_int 280)"
  from not_fgt_cases [OF this] float_of_int_val [of 280]
  consider "ad = NaN" | "fle ad (float_of_int 280)" by auto
  then show False
  proof cases
    case 1
    from float_of_int_val [of 280] obtain dd
      where "float_of_int 280 = Finite dd" "val dd = 280" by auto
    with 1 assms(1) have "p = NaN" using hundred by (auto simp: percentage_of_def)
    with assms(2) show False by (cases "float_of_int 100") (simp_all add: fgt_def)
  next
    case 2
    from percentage_of_le [OF 2] assms show False by simp
  qed
qed

text \<open>
  On a table of positive baselines the loop returns at the first entry that matches, with
  that entry's club: the lookahead branch is never entered.
\<close>

lemma scan_find:
  assumes "list_all (\<lambda>(c, b). 0 < b \<and> b < 2 ^ 53) rest"
  shows "scan cs ad i rest =
    (case find (matches ad) rest of
       None \<Rightarrow> None
     | Some (club, baseline) \<Rightarrow> Some (map_sum id (Pair club) (percentage_of ad baseline)))"
  using assms
proof (induction rest arbitrary: i)
  case Nil
  then show ?case by simp
next
  case (Cons entry rest)
  obtain club distance where entry: "entry = (club, distance)" by (cases entry)
  show ?case
  proof (cases "fle ad (float_of_int distance)")
    case True
    from Cons.prems entry have "0 < distance" "distance < 2 ^ 53" by simp_all
    from percentage_of_le [OF True this] obtain p
      where "percentage_of ad distance = Inr p" "\<not> fgt p (float_of_int 100)" by blast
    with True entry show ?thesis by (simp add: matches_def)
  next
    case False
    with Cons entry show ?thesis by (simp add: matches_def)
  qed
qed

lemma suggest_find:
  "suggest_club_and_percentage ad =
    (case find (matches ad) sorted_clubs of
       None \<Rightarrow> map_sum id (Pair ''Driver'') (percentage_of ad 280)
     | Some (club, baseline) \<Rightarrow> map_sum id (Pair club) (percentage_of ad baseline))"
proof -
  have "getindex sorted_clubs (- 1) = Inr (''Driver'', 280)"
    by (simp add: getindex_def sorted_clubs_eq)
  then show ?thesis
    unfolding suggest_club_and_percentage_def scan_find [OF baselines_ok]
    by (auto split: option.splits sum.splits)
qed

lemma find_positive:
  assumes "find (matches ad) sorted_clubs = Some (club, baseline)"
  shows "0 < baseline \<and> baseline < 2 ^ 53 \<and> fle ad (float_of_int baseline) \<and>
    (club, baseline) \<in> set sorted_clubs"
proof -
  from assms have "(club, baseline) \<in> set sorted_clubs" "matches ad (club, baseline)"
    by (auto simp: find_Some_iff in_set_conv_nth)
  moreover from baselines_ok have "\<forall>(c, b) \<in> set sorted_clubs. 0 < b \<and> b < 2 ^ 53"
    by (simp add: list_all_iff)
  ultimately show ?thesis by (auto simp: matches_def)
qed

lemma find_Some_if_le:
  assumes "fle ad (float_of_int 280)"
  shows "\<exists>club baseline. find (matches ad) sorted_clubs = Some (club, baseline)"
proof -
  have "matches ad (''Driver'', 280)" using assms by (simp add: matches_def)
  moreover have "(''Driver'', 280) \<in> set sorted_clubs" by (simp add: sorted_clubs_eq)
  ultimately have "find (matches ad) sorted_clubs \<noteq> None"
    by (auto simp: find_None_iff)
  then show ?thesis by auto
qed

lemma find_None_if_gt:
  assumes "list_all (\<lambda>(c, b). fgt ad (float_of_int b)) CLUB_DISTANCES"
  shows "find (matches ad) sorted_clubs = None"
  using assms
  by (auto simp: find_None_iff matches_def list_all_iff set_sorted_clubs dest: fgt_not_fle)

lemma edge_case_never: "\<not> edge_case_reached ad"
proof (cases "find (matches ad) sorted_clubs")
  case None
  then show ?thesis by (simp add: edge_case_reached_def)
next
  case (Some entry)
  obtain club baseline where entry: "entry = (club, baseline)" by (cases entry)
  from find_positive [OF Some [unfolded entry]]
  have "fle ad (float_of_int baseline)" "0 < baseline" "baseline < 2 ^ 53" by simp_all
  from percentage_of_le [OF this] Some entry show ?thesis
    by (auto simp: edge_case_reached_def)
qed

text \<open>How the selector evaluates on a float given by its value.\<close>

lemma matches_double:
  assumes "is_double x" "\<bar>b\<bar> < 2 ^ 53"
  shows "matches (py_float x) (c, b) \<longleftrightarrow> x \<le> real_of_int b"
  using fle_double [OF assms(1) is_double_int [OF assms(2)]]
  by (simp add: matches_def float_of_int_eq)

lemma percentage_of_double:
  assumes "is_double x" "0 < b" "b < 2 ^ 53" "rnd (x / real_of_int b) = q" "\<bar>q\<bar> < 2 ^ 1024"
    "rnd (q * 100) = p"
  shows "percentage_of (py_float x) b = Inr (py_float p)"
proof -
  from assms(2,3) have b: "is_double (real_of_int b)" by (intro is_double_int) simp
  have h: "is_double 100" using is_double_int [of 100] by simp
  from assms(4,5) have q: "is_double q" using is_double_rnd [of "x / real_of_int b"] by simp
  have "fdiv (py_float x) (float_of_int b) = Inr (py_float (x / real_of_int b))"
    unfolding float_of_int_eq using assms(1) b assms(2) by (intro fdiv_double) simp_all
  also have "py_float (x / real_of_int b) = py_float q" using assms(4) by (rule py_float_eval)
  finally have d: "fdiv (py_float x) (float_of_int b) = Inr (py_float q)" .
  have "fmul (py_float q) (float_of_int 100) = py_float (q * 100)"
    using fmul_double [OF q h] by (simp add: float_of_int_eq)
  also have "\<dots> = py_float p" using assms(6) by (rule py_float_eval)
  finally show ?thesis by (simp add: percentage_of_def d)
qed

section \<open>Facts about the shot adjuster\<close>

lemma getitem_missing:
  "club \<notin> fst ` set d \<Longrightarrow> getitem d club = Inl (KeyError club)"
  by (simp add: getitem_def map_of_eq_None_iff [THEN iffD2])

lemma getitem_present:
  assumes "club \<in> fst ` set d"
  shows "\<exists>v. getitem d club = Inr v \<and> (club, v) \<in> set d"
proof -
  from assms obtain v where "map_of d club = Some v"
    by (cases "map_of d club") (auto simp: map_of_eq_None_iff)
  then show ?thesis by (auto simp: getitem_def dest: map_of_SomeD)
qed

text \<open>The constant \<^verbatim>\<open>degToRad\<close> is the float \<^verbatim>\<open>0x1.1df46a2529d39p-6\<close>.\<close>

lemma rnd_degToRad: "rnd (Py_MATH_PI / 180) = 5030569068109113 / 2 ^ 58"
proof -
  have "rnd (Py_MATH_PI / 180) =
      2 powi (- 6 - 52) * real_of_int (rhe (Py_MATH_PI / 180 / 2 powi (- 6 - 52)))"
    by (rule rnd_eval_normal) (simp_all add: Py_MATH_PI_def)
  also have "\<dots> = 5030569068109113 / 2 ^ 58"
    by (simp add: Py_MATH_PI_def rhe_def Let_def)
  finally show ?thesis .
qed

lemma degToRad_val: "\<exists>r. degToRad = Finite r \<and> 0 < val r \<and> val r \<le> 1"
proof -
  have "\<bar>rnd (Py_MATH_PI / 180)\<bar> < 2 ^ 1024" unfolding rnd_degToRad by simp
  from round64_finite [OF this] obtain r
    where "round64 (Py_MATH_PI / 180) = Finite r" "val r = rnd (Py_MATH_PI / 180)" by blast
  then show ?thesis by (simp add: degToRad_def rnd_degToRad)
qed

lemma radians_finite:
  assumes "is_finite a"
  shows "is_finite (math_radians a)"
proof -
  from assms obtain v where a: "a = Finite v" by (auto simp: is_finite_iff)
  from degToRad_val obtain r where r: "degToRad = Finite r" "0 < val r" "val r \<le> 1" by blast
  have fixed: "rnd \<bar>val v\<bar> = \<bar>val v\<bar>" by (simp add: abs_if rnd_minus)
  have "\<bar>val v * val r\<bar> = \<bar>val v\<bar> * val r" using r(2) by (simp add: abs_mult)
  also have "\<dots> \<le> \<bar>val v\<bar> * 1" using r(3) by (intro mult_left_mono) simp_all
  finally have "\<bar>val v * val r\<bar> \<le> \<bar>val v\<bar>" by simp
  from rnd_abs_le [OF this fixed] val_bound [of v]
  have "\<bar>rnd (val v * val r)\<bar> < 2 ^ 1024" by linarith
  from round64_finite [OF this] show ?thesis
    by (auto simp: math_radians_def a r)
qed

lemma radians_not_inf: "\<not> is_inf a \<Longrightarrow> \<not> is_inf (math_radians a)"
proof (cases a)
  case (Finite v)
  then have "is_finite (math_radians a)" by (intro radians_finite) simp
  then show ?thesis by (cases "math_radians a") simp_all
next
  case NaN
  then show ?thesis by (simp add: math_radians_def)
qed simp_all

lemma radians_inf:
  assumes "is_inf a"
  shows "is_inf (math_radians a)"
proof -
  from degToRad_val obtain r where r: "degToRad = Finite r" "0 < val r" "val r \<le> 1" by blast
  from r(2) have "val r \<noteq> 0" "\<not> val r < 0" by simp_all
  with assms show ?thesis by (cases a) (simp_all add: math_radians_def r(1) inf_of_def)
qed

lemma math_cos_ok: "\<not> is_inf a \<Longrightarrow> \<exists>c. math_cos a = Inr c"
  by (cases a) auto

lemma math_sin_ok: "\<not> is_inf a \<Longrightarrow> \<exists>s. math_sin a = Inr s"
  by (cases a) auto

lemma math_cos_inf: "is_inf a \<Longrightarrow> math_cos a = Inl ValueError"
  by (cases a) auto

lemma math_cos_float_cos: "\<not> is_inf a \<Longrightarrow> math_cos a = Inr (float_cos a)"
  by (cases a) auto

lemma math_sin_float_sin: "\<not> is_inf a \<Longrightarrow> math_sin a = Inr (float_sin a)"
  by (cases a) auto

lemma float_cos_finite:
  assumes "is_finite a"
  shows "is_finite (float_cos a)"
proof -
  from assms obtain v where a: "a = Finite v" by (auto simp: is_finite_iff)
  have "\<bar>cos (val v)\<bar> \<le> 1" by simp
  from round64_small [OF this] show ?thesis by (auto simp: a)
qed

lemma float_sin_finite:
  assumes "is_finite a"
  shows "is_finite (float_sin a)"
proof -
  from assms obtain v where a: "a = Finite v" by (auto simp: is_finite_iff)
  have "\<bar>sin (val v)\<bar> \<le> 1" by simp
  from round64_small [OF this] show ?thesis by (auto simp: a)
qed

text \<open>Zero times a finite float is zero, and adding zero changes nothing.\<close>

lemma fmul_zero_left: "is_finite b \<Longrightarrow> fmul (py_float 0) b = py_float 0"
  using zero_float by (auto simp: is_finite_iff py_float_def)

lemma fadd_zero_right: "fadd a (py_float 0) = a"
  using zero_float by (cases a) auto

lemma factors_complete:
  "list_all (\<lambda>(club, factors).
      (case getitem factors ''elevation'' of Inl e \<Rightarrow> False | Inr fe \<Rightarrow> is_finite fe) \<and>
      (case getitem factors ''wind'' of Inl e \<Rightarrow> False | Inr fw \<Rightarrow> is_finite fw))
    CLUB_FACTORS"
  by (simp add: CLUB_FACTORS_def getitem_def py_float_small)

lemma club_factor_missing:
  "club \<notin> fst ` set CLUB_FACTORS \<Longrightarrow> club_factor club field = Inl (KeyError club)"
  by (simp add: club_factor_def getitem_missing)

lemma club_factor_present:
  assumes "club \<in> fst ` set CLUB_FACTORS"
  shows "\<exists>ef wf. club_factor club ''elevation'' = Inr (Finite ef) \<and>
                  club_factor club ''wind'' = Inr (Finite wf)"
proof -
  from getitem_present [OF assms] obtain factors
    where g: "getitem CLUB_FACTORS club = Inr factors" "(club, factors) \<in> set CLUB_FACTORS"
    by blast
  from factors_complete g(2)
  have *: "(case getitem factors ''elevation'' of Inl e \<Rightarrow> False | Inr fe \<Rightarrow> is_finite fe) \<and>
      (case getitem factors ''wind'' of Inl e \<Rightarrow> False | Inr fw \<Rightarrow> is_finite fw)"
    unfolding list_all_iff by blast
  have "\<exists>ef wf. getitem factors ''elevation'' = Inr (Finite ef) \<and>
              getitem factors ''wind'' = Inr (Finite wf)"
  proof (cases "getitem factors ''elevation''")
    case Inl
    with * show ?thesis by simp
  next
    case fe: (Inr fe)
    show ?thesis
    proof (cases "getitem factors ''wind''")
      case Inl
      with * show ?thesis by simp
    next
      case fw: (Inr fw)
      from * fe fw show ?thesis by (simp add: is_finite_iff)
    qed
  qed
  with g(1) show ?thesis by (simp add: club_factor_def)
qed




lemma adjust_shot_missing:
  "club \<notin> fst ` set CLUB_FACTORS \<Longrightarrow>
   calculate_adjusted_shot base elevation wind_speed wind_angle_deg club = Inl (KeyError club)"
  by (simp add: calculate_adjusted_shot_def club_factor_missing)

lemma adjust_shot_inf_angle:
  assumes "club \<in> fst ` set CLUB_FACTORS" and "is_inf wind_angle_deg"
  shows "calculate_adjusted_shot base elevation wind_speed wind_angle_deg club = Inl ValueError"
proof -
  from club_factor_present [OF assms(1)] obtain ef wf
    where f: "club_factor club ''elevation'' = Inr (Finite ef)"
             "club_factor club ''wind'' = Inr (Finite wf)" by blast
  from assms(2) have "math_cos (math_radians wind_angle_deg) = Inl ValueError"
    by (simp add: radians_inf math_cos_inf)
  then show ?thesis by (simp add: calculate_adjusted_shot_def f)
qed

lemma adjust_shot_returns:
  assumes "club \<in> fst ` set CLUB_FACTORS" and "\<not> is_inf wind_angle_deg"
  shows "\<exists>r. calculate_adjusted_shot base elevation wind_speed wind_angle_deg club = Inr r"
proof -
  from club_factor_present [OF assms(1)] obtain ef wf
    where f: "club_factor club ''elevation'' = Inr (Finite ef)"
             "club_factor club ''wind'' = Inr (Finite wf)" by blast
  from assms(2) have "\<not> is_inf (math_radians wind_angle_deg)" by (rule radians_not_inf)
  from math_cos_ok [OF this] math_sin_ok [OF this] obtain c s
    where cs: "math_cos (math_radians wind_angle_deg) = Inr c"
              "math_sin (math_radians wind_angle_deg) = Inr s" by blast
  show ?thesis by (simp add: calculate_adjusted_shot_def f cs)
qed

text \<open>For an angle that is not infinite the code computes the specification's formula.\<close>

lemma adjust_shot_is_formula:
  assumes "club_factor club ''elevation'' = Inr fe" "club_factor club ''wind'' = Inr fw"
    and "\<not> is_inf wind_angle_deg"
  shows "calculate_adjusted_shot base elevation wind_speed wind_angle_deg club =
    Inr (adjustShot_formula base elevation wind_speed wind_angle_deg fe fw)"
proof -
  from assms(3) have "\<not> is_inf (math_radians wind_angle_deg)" by (rule radians_not_inf)
  from math_cos_float_cos [OF this] math_sin_float_sin [OF this] show ?thesis
    by (simp add: calculate_adjusted_shot_def adjustShot_formula_def assms(1,2) Let_def)
qed

lemma driver_key: "''Driver'' \<in> fst ` set CLUB_FACTORS"
  by (simp add: CLUB_FACTORS_def)

lemma driver_factors:
  "club_factor ''Driver'' ''elevation'' = Inr (py_float 0.25)"
  "club_factor ''Driver'' ''wind'' = Inr (py_float 0.08)"
  by (simp_all add: club_factor_def getitem_def CLUB_FACTORS_def)



section \<open>Worked roundings\<close>

lemma rnd_at:
  assumes "2 powi e \<le> \<bar>x\<bar>" "\<bar>x\<bar> < 2 powi (e + 1)" "- 1022 \<le> e"
    and "2 powi (e - 52) * real_of_int (rhe (x / 2 powi (e - 52))) = c"
  shows "rnd x = c"
  using rnd_eval_normal [OF assms(1-3)] assms(4) by simp

lemma is_double_of_rnd:
  assumes "rnd x = c" "\<bar>c\<bar> < 2 ^ 1024"
  shows "is_double c"
  using is_double_rnd [of x] assms by simp

lemma is_double_numeral [simp]: "(numeral n :: int) < 2 ^ 53 \<Longrightarrow> is_double (numeral n)"
  using is_double_int [of "numeral n"] by simp

lemma is_double_neg_numeral [simp]: "(numeral n :: int) < 2 ^ 53 \<Longrightarrow> is_double (- numeral n)"
  using is_double_int [of "- numeral n"] by simp

lemma is_double_0 [simp]: "is_double 0"
  using is_double_int [of 0] by simp

lemma is_double_1 [simp]: "is_double 1"
  using is_double_int [of 1] by simp

lemma rnd_numeral [simp]: "(numeral n :: int) < 2 ^ 53 \<Longrightarrow> rnd (numeral n) = numeral n"
  using rnd_int [of "numeral n"] by simp

lemma rnd_neg_numeral [simp]: "(numeral n :: int) < 2 ^ 53 \<Longrightarrow> rnd (- numeral n) = - numeral n"
  using rnd_int [of "- numeral n"] by simp

lemma rnd_1 [simp]: "rnd 1 = 1"
  using rnd_int [of 1] by simp

text \<open>\<^verbatim>\<open>(200.0 / 212) * 100\<close> is \<^verbatim>\<open>94.33962264150944\<close>.\<close>

lemma rnd_200_212: "rnd (200 / 212) = 4248678893745751 / 2 ^ 52"
  by (rule rnd_at [of "- 1"]) (simp_all add: rhe_def Let_def)

lemma rnd_200_212_100: "rnd (4248678893745751 / 2 ^ 52 * 100) = 829820096434717 / 2 ^ 43"
  by (rule rnd_at [of 6]) (simp_all add: rhe_def Let_def)

text \<open>\<^verbatim>\<open>(81.0 / 105) * 100\<close> is \<^verbatim>\<open>77.14285714285715\<close>.\<close>

lemma rnd_81_105: "rnd (81 / 105) = 6948410853657337 / 2 ^ 53"
  by (rule rnd_at [of "- 1"]) (simp_all add: rhe_def Let_def)

lemma rnd_81_105_100: "rnd (6948410853657337 / 2 ^ 53 * 100) = 5428445979419795 / 2 ^ 46"
  by (rule rnd_at [of 6]) (simp_all add: rhe_def Let_def)

text \<open>\<^verbatim>\<open>(300.0 / 280) * 100\<close> is \<^verbatim>\<open>107.14285714285714\<close>.\<close>

lemma rnd_300_280: "rnd (300 / 280) = 4825285315039817 / 2 ^ 52"
  by (rule rnd_at [of 0]) (simp_all add: rhe_def Let_def)

lemma rnd_300_280_100: "rnd (4825285315039817 / 2 ^ 52 * 100) = 3769754152374857 / 2 ^ 45"
  by (rule rnd_at [of 6]) (simp_all add: rhe_def Let_def)

text \<open>\<^verbatim>\<open>(290.0 / 280) * 100\<close> is \<^verbatim>\<open>103.57142857142858\<close>.\<close>

lemma rnd_290_280: "rnd (290 / 280) = 4664442471205157 / 2 ^ 52"
  by (rule rnd_at [of 0]) (simp_all add: rhe_def Let_def)

lemma rnd_290_280_100: "rnd (4664442471205157 / 2 ^ 52 * 100) = 3644095680629029 / 2 ^ 45"
  by (rule rnd_at [of 6]) (simp_all add: rhe_def Let_def)

text \<open>\<^verbatim>\<open>350.0 / 280\<close> is \<^verbatim>\<open>1.25\<close> and \<^verbatim>\<open>-40.0 / 80\<close> is \<^verbatim>\<open>-0.5\<close>, both exactly.\<close>

lemma rnd_350_280: "rnd (350 / 280) = 5 / 4"
  by (rule rnd_at [of 0]) (simp_all add: rhe_def Let_def)

lemma rnd_40_80: "rnd (- 40 / 80) = - 1 / 2"
  by (rule rnd_at [of "- 1"]) (simp_all add: rhe_def Let_def)

text \<open>
  The smallest subnormal divided by 80 rounds to zero, and 41 times it divided by 80
  rounds to the smallest subnormal.
\<close>

lemma min_subnormal_pos: "0 < min_subnormal"
  by (simp add: min_subnormal_def)

lemma min_subnormal_le: "min_subnormal \<le> 1 / 2"
proof -
  have "(2::real) powi (- 1074) \<le> 2 powi (- 1)" by (rule powi_le) simp
  then show ?thesis by (simp add: min_subnormal_def)
qed

lemma rnd_tiny_80: "rnd (- min_subnormal / 80) = 0"
proof -
  have "\<bar>- (2 powi (- 1074)) / 80 :: real\<bar> < 2 powi (- 1022)"
    by (simp add: power_int_minus field_simps)
  from rnd_eval_sub [OF this] show ?thesis
    by (simp add: min_subnormal_def rhe_def Let_def)
qed

lemma rnd_41_80: "rnd (- 41 * min_subnormal / 80) = - min_subnormal"
proof -
  have "\<bar>- 41 * 2 powi (- 1074) / 80 :: real\<bar> < 2 powi (- 1022)"
    by (simp add: power_int_minus field_simps)
  from rnd_eval_sub [OF this] show ?thesis
    by (simp add: min_subnormal_def rhe_def Let_def)
qed

lemma is_double_multiple:
  assumes "\<bar>n\<bar> < 2 ^ 53"
  shows "is_double (real_of_int n * min_subnormal)"
  unfolding min_subnormal_def using assms by (intro is_double_dyadic) simp_all

lemma is_double_tiny: "is_double (- min_subnormal)"
  using is_double_multiple [of "- 1"] by simp

lemma is_double_41: "is_double (- 41 * min_subnormal)"
  using is_double_multiple [of "- 41"] by simp

lemma rnd_100_tiny: "rnd (- 100 * min_subnormal) = - 100 * min_subnormal"
  using is_double_multiple [of "- 100"] by (simp add: is_double_def)

lemma fmul_eval:
  assumes "is_double a" "is_double b" "rnd (a * b) = c"
  shows "fmul (py_float a) (py_float b) = py_float c"
  using fmul_double [OF assms(1,2)] py_float_eval [OF assms(3)] by simp

lemma fadd_eval:
  assumes "is_double a" "is_double b" "rnd (a + b) = c"
  shows "fadd (py_float a) (py_float b) = py_float c"
  using fadd_double [OF assms(1,2)] py_float_eval [OF assms(3)] by simp



lemma rnd_008: "rnd 0.08 = 5764607523034235 / 2 ^ 56"
  by (rule rnd_at [of "- 4"]) (simp_all add: rhe_def Let_def)


lemma rnd_1008: "rnd 100.8 = 7093169413108531 / 2 ^ 46"
  by (rule rnd_at [of 6]) (simp_all add: rhe_def Let_def)





text \<open>\<^verbatim>\<open>10 * 0.08\<close> is the float \<^verbatim>\<open>0.8\<close>; \<^verbatim>\<open>100 + 0.8\<close> is \<^verbatim>\<open>100.8\<close> and \<^verbatim>\<open>79.2 + 0.8\<close> is \<^verbatim>\<open>80.0\<close>.\<close>

lemma rnd_10_008: "rnd (10 * (5764607523034235 / 2 ^ 56)) = 3602879701896397 / 2 ^ 52"
  by (rule rnd_at [of "- 1"]) (simp_all add: rhe_def Let_def)

lemma rnd_100_08: "rnd (100 + 3602879701896397 / 2 ^ 52) = 7093169413108531 / 2 ^ 46"
  by (rule rnd_at [of 6]) (simp_all add: rhe_def Let_def)


section \<open>The club selector: claims\<close>

text \<open>
  Claim C2. \<open>sorted_clubs\<close> holds the table entries in ascending order of baseline. For
  every distance that is at most the largest baseline, \<open>suggest_club_and_percentage\<close>
  returns the club of the first entry of \<open>sorted_clubs\<close> whose baseline is at least the
  distance, with the percentage (distance / that baseline) * 100, the float quotient
  times the float 100. In particular a distance of 80 gives the Lob Wedge at exactly 100,
  and a distance of 0 gives the shortest club at exactly 0.
\<close>

theorem suggest_club_first_match:
  "sorted (map snd sorted_clubs) \<and> mset sorted_clubs = mset CLUB_DISTANCES \<and>
   (fle ad (float_of_int (Max (set (map snd CLUB_DISTANCES)))) \<longrightarrow>
     (\<exists>club baseline q.
        find (matches ad) sorted_clubs = Some (club, baseline) \<and>
        fdiv ad (float_of_int baseline) = Inr q \<and>
        suggest_club_and_percentage ad = Inr (club, fmul q (float_of_int 100)))) \<and>
   suggest_club_and_percentage (py_float 80) = Inr (''Lob Wedge'', py_float 100) \<and>
   suggest_club_and_percentage (py_float 0) = Inr (fst (hd sorted_clubs), py_float 0)"
proof (intro conjI impI)
  show "sorted (map snd sorted_clubs)" by (simp add: sorted_clubs_def)
  show "mset sorted_clubs = mset CLUB_DISTANCES" by (simp add: sorted_clubs_def)
  have "percentage_of (py_float 80) 80 = Inr (py_float 100)"
    by (rule percentage_of_double [where q = 1]) simp_all
  then show "suggest_club_and_percentage (py_float 80) = Inr (''Lob Wedge'', py_float 100)"
    by (simp add: suggest_find sorted_clubs_eq matches_double)
  have "percentage_of (py_float 0) 80 = Inr (py_float 0)"
    by (rule percentage_of_double [where q = 0]) simp_all
  then show "suggest_club_and_percentage (py_float 0) = Inr (fst (hd sorted_clubs), py_float 0)"
    by (simp add: suggest_find sorted_clubs_eq matches_double)
next
  assume "fle ad (float_of_int (Max (set (map snd CLUB_DISTANCES))))"
  then have "fle ad (float_of_int 280)" by (simp only: max_baseline)
  from find_Some_if_le [OF this] obtain club baseline
    where f: "find (matches ad) sorted_clubs = Some (club, baseline)" by blast
  from find_positive [OF f] have pos: "0 < baseline" "baseline < 2 ^ 53" by simp_all
  from fdiv_pos [OF pos] obtain q where q: "fdiv ad (float_of_int baseline) = Inr q"
    by blast
  have "suggest_club_and_percentage ad = Inr (club, fmul q (float_of_int 100))"
    by (simp add: suggest_find f percentage_of_def q)
  with f q show "\<exists>club baseline q.
        find (matches ad) sorted_clubs = Some (club, baseline) \<and>
        fdiv ad (float_of_int baseline) = Inr q \<and>
        suggest_club_and_percentage ad = Inr (club, fmul q (float_of_int 100))"
    by blast
qed

text \<open>
  The theorem at 200 yards: the first baseline that is at least 200 is the 4-Iron's 212,
  the quotient is the float \<^verbatim>\<open>0.9433962264150944\<close> and the percentage the float
  \<^verbatim>\<open>94.33962264150944\<close>.
\<close>

theorem suggest_club_first_match_witness:
  "fle (py_float 200) (float_of_int (Max (set (map snd CLUB_DISTANCES)))) \<and>
   find (matches (py_float 200)) sorted_clubs = Some (''4-Iron'', 212) \<and>
   fdiv (py_float 200) (float_of_int 212) = Inr (py_float (4248678893745751 / 2 ^ 52)) \<and>
   suggest_club_and_percentage (py_float 200) =
     Inr (''4-Iron'', py_float (829820096434717 / 2 ^ 43))"
proof -
  have le: "fle (py_float 200) (float_of_int (Max (set (map snd CLUB_DISTANCES))))"
    unfolding max_baseline by (simp add: float_of_int_eq fle_double)
  have f: "find (matches (py_float 200)) sorted_clubs = Some (''4-Iron'', 212)"
    by (simp add: sorted_clubs_eq matches_double)
  have "fdiv (py_float 200) (py_float 212) = Inr (py_float (200 / 212))"
    by (rule fdiv_double) simp_all
  also have "py_float (200 / 212) = py_float (4248678893745751 / 2 ^ 52)"
    using rnd_200_212 by (rule py_float_eval)
  finally have d: "fdiv (py_float 200) (float_of_int 212) =
      Inr (py_float (4248678893745751 / 2 ^ 52))"
    by (simp add: float_of_int_eq)
  have q: "is_double (4248678893745751 / 2 ^ 52)"
    using rnd_200_212 by (rule is_double_of_rnd) simp
  have h: "is_double 100" by simp
  have m: "fmul (py_float (4248678893745751 / 2 ^ 52)) (float_of_int 100) =
      py_float (829820096434717 / 2 ^ 43)"
    unfolding float_of_int_eq of_int_numeral fmul_double [OF q h]
    using rnd_200_212_100 by (rule py_float_eval)
  from suggest_club_first_match [of "py_float 200"] le obtain club baseline q' where
    "find (matches (py_float 200)) sorted_clubs = Some (club, baseline)"
    "fdiv (py_float 200) (float_of_int baseline) = Inr q'"
    "suggest_club_and_percentage (py_float 200) = Inr (club, fmul q' (float_of_int 100))"
    by blast
  with f d m have "suggest_club_and_percentage (py_float 200) =
     Inr (''4-Iron'', py_float (829820096434717 / 2 ^ 43))"
    by simp
  with le f d show ?thesis by simp
qed

text \<open>
  Claim C3, as it holds on the code. The first entry whose baseline is at least the
  distance never gives a percentage above 100, so the situation the one-step lookahead is
  written for does not occur and the lookahead is never taken: whenever an entry matches,
  \<open>suggest_club_and_percentage\<close> returns the club of the first matching entry with the
  percentage against that entry's own baseline, which is not above 100.
\<close>

theorem lookahead_unreachable:
  "\<not> edge_case_reached ad \<and>
   (\<forall>club baseline. find (matches ad) sorted_clubs = Some (club, baseline) \<longrightarrow>
      (\<exists>p. percentage_of ad baseline = Inr p \<and> \<not> fgt p (float_of_int 100) \<and>
           suggest_club_and_percentage ad = Inr (club, p)))"
proof (intro conjI allI impI)
  show "\<not> edge_case_reached ad" by (rule edge_case_never)
next
  fix club baseline
  assume f: "find (matches ad) sorted_clubs = Some (club, baseline)"
  from find_positive [OF f]
  have "fle ad (float_of_int baseline)" "0 < baseline" "baseline < 2 ^ 53" by simp_all
  from percentage_of_le [OF this] obtain p
    where p: "percentage_of ad baseline = Inr p" "\<not> fgt p (float_of_int 100)" by blast
  then show "\<exists>p. percentage_of ad baseline = Inr p \<and> \<not> fgt p (float_of_int 100) \<and>
           suggest_club_and_percentage ad = Inr (club, p)"
    by (simp add: suggest_find f)
qed

text \<open>
  The theorem at 81 yards, just above the Lob Wedge's baseline of 80: the scan itself
  moves on to the Sand Wedge (105), at the float \<^verbatim>\<open>77.14285714285715\<close> percent.
\<close>

theorem lookahead_unreachable_witness:
  "\<not> edge_case_reached (py_float 81) \<and>
   find (matches (py_float 81)) sorted_clubs = Some (''Sand Wedge'', 105) \<and>
   percentage_of (py_float 81) 105 = Inr (py_float (5428445979419795 / 2 ^ 46)) \<and>
   \<not> fgt (py_float (5428445979419795 / 2 ^ 46)) (float_of_int 100) \<and>
   suggest_club_and_percentage (py_float 81) =
     Inr (''Sand Wedge'', py_float (5428445979419795 / 2 ^ 46))"
proof -
  have f: "find (matches (py_float 81)) sorted_clubs = Some (''Sand Wedge'', 105)"
    by (simp add: sorted_clubs_eq matches_double)
  have p: "percentage_of (py_float 81) 105 = Inr (py_float (5428445979419795 / 2 ^ 46))"
    by (rule percentage_of_double [where q = "6948410853657337 / 2 ^ 53"])
      (use rnd_81_105 rnd_81_105_100 in simp_all)
  from lookahead_unreachable [of "py_float 81"] f p show ?thesis by auto
qed

text \<open>
  The claim as written says that some distance reaches the edge case. None does.
\<close>

theorem lookahead_unreachable_counterexample:
  "\<not> (\<exists>adjusted_distance. edge_case_reached adjusted_distance)"
  by (simp add: edge_case_never)

text \<open>
  Claim C4. The longest baseline is the Driver's 280, the last entry of \<open>sorted_clubs\<close>.
  For every distance strictly greater than every baseline of the table,
  \<open>suggest_club_and_percentage\<close> returns the Driver with the percentage
  (distance / 280) * 100, the float quotient times the float 100. In particular 300 yards
  give the Driver at the float \<^verbatim>\<open>107.14285714285714\<close>, which is 107.14 to two decimals.
\<close>

theorem suggest_club_beyond_longest:
  "last sorted_clubs = (''Driver'', 280) \<and> Max (set (map snd CLUB_DISTANCES)) = 280 \<and>
   (list_all (\<lambda>(c, b). fgt ad (float_of_int b)) CLUB_DISTANCES \<longrightarrow>
     (\<exists>q. fdiv ad (float_of_int 280) = Inr q \<and>
        suggest_club_and_percentage ad = Inr (''Driver'', fmul q (float_of_int 100)))) \<and>
   suggest_club_and_percentage (py_float 300) =
     Inr (''Driver'', py_float (3769754152374857 / 2 ^ 45)) \<and>
   \<bar>3769754152374857 / 2 ^ 45 - 107.14 :: real\<bar> < 0.005"
proof (intro conjI impI)
  show "last sorted_clubs = (''Driver'', 280)" by (simp add: sorted_clubs_eq)
  show "Max (set (map snd CLUB_DISTANCES)) = 280" by (rule max_baseline)
  have "percentage_of (py_float 300) 280 = Inr (py_float (3769754152374857 / 2 ^ 45))"
    by (rule percentage_of_double [where q = "4825285315039817 / 2 ^ 52"])
      (use rnd_300_280 rnd_300_280_100 in simp_all)
  then show "suggest_club_and_percentage (py_float 300) =
     Inr (''Driver'', py_float (3769754152374857 / 2 ^ 45))"
    by (simp add: suggest_find sorted_clubs_eq matches_double)
  show "\<bar>3769754152374857 / 2 ^ 45 - 107.14 :: real\<bar> < 0.005" by simp
next
  assume "list_all (\<lambda>(c, b). fgt ad (float_of_int b)) CLUB_DISTANCES"
  then have none: "find (matches ad) sorted_clubs = None" by (rule find_None_if_gt)
  obtain q where q: "fdiv ad (float_of_int 280) = Inr q"
    using fdiv_pos [of 280 ad] by auto
  have "suggest_club_and_percentage ad = Inr (''Driver'', fmul q (float_of_int 100))"
    by (simp add: suggest_find none percentage_of_def q)
  with q show "\<exists>q. fdiv ad (float_of_int 280) = Inr q \<and>
        suggest_club_and_percentage ad = Inr (''Driver'', fmul q (float_of_int 100))"
    by blast
qed

text \<open>The theorem at 350 yards: the quotient is exactly 1.25, the Driver at 125 percent.\<close>

theorem suggest_club_beyond_longest_witness:
  "list_all (\<lambda>(c, b). fgt (py_float 350) (float_of_int b)) CLUB_DISTANCES \<and>
   fdiv (py_float 350) (float_of_int 280) = Inr (py_float (5 / 4)) \<and>
   suggest_club_and_percentage (py_float 350) = Inr (''Driver'', py_float 125)"
proof -
  have gt: "list_all (\<lambda>(c, b). fgt (py_float 350) (float_of_int b)) CLUB_DISTANCES"
    by (simp add: CLUB_DISTANCES_def fgt_def float_of_int_eq flt_double)
  have "fdiv (py_float 350) (py_float 280) = Inr (py_float (350 / 280))"
    by (rule fdiv_double) simp_all
  also have "py_float (350 / 280) = py_float (5 / 4)"
    using rnd_350_280 by (rule py_float_eval)
  finally have d: "fdiv (py_float 350) (float_of_int 280) = Inr (py_float (5 / 4))"
    by (simp add: float_of_int_eq)
  have q: "is_double (5 / 4)" using rnd_350_280 by (rule is_double_of_rnd) simp
  have h: "is_double 100" by simp
  have m: "fmul (py_float (5 / 4)) (float_of_int 100) = py_float 125"
    unfolding float_of_int_eq of_int_numeral fmul_double [OF q h] by simp
  from suggest_club_beyond_longest [of "py_float 350"] gt obtain q' where
    "fdiv (py_float 350) (float_of_int 280) = Inr q'"
    "suggest_club_and_percentage (py_float 350) = Inr (''Driver'', fmul q' (float_of_int 100))"
    by blast
  with d m have "suggest_club_and_percentage (py_float 350) = Inr (''Driver'', py_float 125)"
    by simp
  with gt d show ?thesis by simp
qed

text \<open>
  Claim C5. For every float distance the returned club is a key of \<open>CLUB_DISTANCES\<close>,
  and the returned percentage is above 100 only when the distance is greater than the
  longest baseline (the fallback after the loop) or the lookahead's edge case was reached.
\<close>

theorem suggest_club_output_guarantee:
  "\<exists>club p. suggest_club_and_percentage ad = Inr (club, p) \<and>
      club \<in> fst ` set CLUB_DISTANCES \<and>
      (fgt p (float_of_int 100) \<longrightarrow>
         fgt ad (float_of_int (Max (set (map snd CLUB_DISTANCES)))) \<or> edge_case_reached ad)"
proof (cases "find (matches ad) sorted_clubs")
  case None
  obtain p where p: "percentage_of ad 280 = Inr p"
    using percentage_of_pos [of 280 ad] by auto
  have "suggest_club_and_percentage ad = Inr (''Driver'', p)"
    by (simp add: suggest_find None p)
  moreover have "''Driver'' \<in> fst ` set CLUB_DISTANCES"
    by (simp add: CLUB_DISTANCES_def)
  moreover have "fgt p (float_of_int 100) \<longrightarrow>
      fgt ad (float_of_int (Max (set (map snd CLUB_DISTANCES))))"
    using percentage_gt_100 [OF p] by (simp only: max_baseline) blast
  ultimately show ?thesis by blast
next
  case (Some entry)
  obtain club baseline where entry: "entry = (club, baseline)" by (cases entry)
  note f = Some [unfolded entry]
  from find_positive [OF f]
  have *: "fle ad (float_of_int baseline)" "0 < baseline" "baseline < 2 ^ 53"
    "(club, baseline) \<in> set sorted_clubs"
    by simp_all
  from percentage_of_le [OF *(1-3)] obtain p
    where p: "percentage_of ad baseline = Inr p" "\<not> fgt p (float_of_int 100)" by blast
  have "suggest_club_and_percentage ad = Inr (club, p)"
    by (simp add: suggest_find f p)
  moreover have "club \<in> fst ` set CLUB_DISTANCES"
    using *(4) by (force simp: set_sorted_clubs)
  ultimately show ?thesis using p(2) by blast
qed

text \<open>
  The theorem at 290 yards: the Driver, a key of the table, at the float
  \<^verbatim>\<open>103.57142857142858\<close> percent, with 290 greater than the longest baseline.
\<close>

theorem suggest_club_output_guarantee_witness:
  "suggest_club_and_percentage (py_float 290) =
     Inr (''Driver'', py_float (3644095680629029 / 2 ^ 45)) \<and>
   ''Driver'' \<in> fst ` set CLUB_DISTANCES \<and>
   fgt (py_float (3644095680629029 / 2 ^ 45)) (float_of_int 100) \<and>
   fgt (py_float 290) (float_of_int (Max (set (map snd CLUB_DISTANCES))))"
proof -
  have "percentage_of (py_float 290) 280 = Inr (py_float (3644095680629029 / 2 ^ 45))"
    by (rule percentage_of_double [where q = "4664442471205157 / 2 ^ 52"])
      (use rnd_290_280 rnd_290_280_100 in simp_all)
  then have s: "suggest_club_and_percentage (py_float 290) =
     Inr (''Driver'', py_float (3644095680629029 / 2 ^ 45))"
    by (simp add: suggest_find sorted_clubs_eq matches_double)
  have p: "is_double (3644095680629029 / 2 ^ 45)"
    using rnd_290_280_100 by (rule is_double_of_rnd) simp
  have above: "fgt (py_float (3644095680629029 / 2 ^ 45)) (float_of_int 100)"
    unfolding fgt_def float_of_int_eq of_int_numeral
    using flt_double [of 100 "3644095680629029 / 2 ^ 45"] p by simp
  from suggest_club_output_guarantee [of "py_float 290"] s above edge_case_never [of "py_float 290"]
  have "''Driver'' \<in> fst ` set CLUB_DISTANCES \<and>
      fgt (py_float 290) (float_of_int (Max (set (map snd CLUB_DISTANCES))))"
    by auto
  with s above show ?thesis by simp
qed

text \<open>
  Claim C9. \<open>suggest_club_and_percentage\<close> is total: for every float distance (negative,
  zero, beyond every baseline, infinite or NaN) the loop ends and a (club, percentage)
  pair is returned, never an error. Every baseline of the table is strictly positive, and
  no division by a baseline of the table raises \<open>ZeroDivisionError\<close>.
\<close>

theorem suggest_club_total:
  "(\<exists>club p. suggest_club_and_percentage ad = Inr (club, p)) \<and>
   list_all (\<lambda>(c, b). 0 < b) CLUB_DISTANCES \<and>
   list_all (\<lambda>(c, b). percentage_of ad b \<noteq> Inl ZeroDivisionError) CLUB_DISTANCES"
proof (intro conjI)
  show "\<exists>club p. suggest_club_and_percentage ad = Inr (club, p)"
  proof (cases "find (matches ad) sorted_clubs")
    case None
    then show ?thesis
      using percentage_of_pos [of 280 ad] by (auto simp: suggest_find)
  next
    case (Some entry)
    obtain club baseline where entry: "entry = (club, baseline)" by (cases entry)
    note f = Some [unfolded entry]
    from find_positive [OF f] have "0 < baseline" "baseline < 2 ^ 53" by simp_all
    from percentage_of_pos [OF this, of ad] show ?thesis
      by (auto simp: suggest_find f)
  qed
  show "list_all (\<lambda>(c, b). 0 < b) CLUB_DISTANCES"
    by (simp add: CLUB_DISTANCES_def)
  have ok: "list_all (\<lambda>(c, b). 0 < b \<and> b < 2 ^ 53) CLUB_DISTANCES"
    by (simp add: CLUB_DISTANCES_def)
  show "list_all (\<lambda>(c, b). percentage_of ad b \<noteq> Inl ZeroDivisionError) CLUB_DISTANCES"
    unfolding list_all_iff
  proof (clarify)
    fix c b
    assume "(c, b) \<in> set CLUB_DISTANCES" "percentage_of ad b = Inl ZeroDivisionError"
    with ok have "0 < b" "b < 2 ^ 53" by (auto simp: list_all_iff)
    from percentage_of_pos [OF this, of ad] \<open>percentage_of ad b = Inl ZeroDivisionError\<close>
    show False by auto
  qed
qed

text \<open>The theorem at NaN: no comparison succeeds, and the fallback returns the Driver.\<close>

theorem suggest_club_total_witness:
  "suggest_club_and_percentage NaN = Inr (''Driver'', NaN) \<and>
   list_all (\<lambda>(c, b). 0 < b) CLUB_DISTANCES"
proof -
  from float_of_int_val [of 280] obtain dd
    where "float_of_int 280 = Finite dd" "val dd = 280" by auto
  then have "percentage_of NaN 280 = Inr NaN" by (simp add: percentage_of_def)
  then have "suggest_club_and_percentage NaN = Inr (''Driver'', NaN)"
    by (simp add: suggest_find sorted_clubs_eq matches_def)
  with suggest_club_total [of NaN] show ?thesis by simp
qed

text \<open>
  Dividing a negative distance by 80 and multiplying by 100 never gives a positive float,
  and gives a negative one as soon as the quotient does not underflow to zero.
\<close>

lemma fdiv_80_neg:
  assumes "flt ad (py_float 0)"
  shows "\<exists>q. fdiv ad (float_of_int 80) = Inr q \<and>
    (q = NegInf \<or> (\<exists>qd. q = Finite qd \<and> val qd \<le> 0 \<and>
       (fle ad (py_float (- 41 * min_subnormal)) \<longrightarrow> val qd \<le> - min_subnormal)))"
proof -
  from float_of_int_val [of 80] obtain dd
    where dd: "float_of_int 80 = Finite dd" "val dd = 80" by auto
  from zero_float obtain z where z: "py_float 0 = Finite z" "val z = 0" by blast
  from py_float_val [OF is_double_41] obtain t
    where t: "py_float (- 41 * min_subnormal) = Finite t" "val t = - 41 * min_subnormal"
    by blast
  show ?thesis
  proof (cases ad)
    case (Finite a)
    with assms z have neg: "val a < 0" by simp
    then have "val a / 80 \<le> 0" by simp
    from rnd_mono [OF this] have le: "rnd (val a / 80) \<le> 0" by simp
    have q: "fdiv ad (float_of_int 80) = Inr (round64 (val a / 80))"
      by (simp add: Finite dd)
    show ?thesis
    proof (cases "val a / 80" rule: round64_cases)
      case (1 qd)
      have "fle ad (py_float (- 41 * min_subnormal)) \<longrightarrow> val qd \<le> - min_subnormal"
      proof
        assume "fle ad (py_float (- 41 * min_subnormal))"
        with Finite t have "val a \<le> - 41 * min_subnormal" by simp
        then have "val a / 80 \<le> - 41 * min_subnormal / 80" by (rule divide_right_mono) simp
        from rnd_mono [OF this] have "rnd (val a / 80) \<le> - min_subnormal"
          by (simp only: rnd_41_80)
        with 1(2) show "val qd \<le> - min_subnormal" by simp
      qed
      with 1 le q show ?thesis by simp
    next
      case 2
      with le have "(2::real) ^ 1024 \<le> 0" by linarith
      then show ?thesis by simp
    next
      case 3
      with q show ?thesis by simp
    qed
  next
    case NegInf
    with dd show ?thesis by (simp add: inf_of_def)
  next
    case PosInf
    with assms z show ?thesis by simp
  next
    case NaN
    with assms show ?thesis by simp
  qed
qed

lemma fmul_100_nonpos:
  assumes "q = NegInf \<or> (\<exists>qd. q = Finite qd \<and> val qd \<le> 0)"
  shows "fle (fmul q (float_of_int 100)) (py_float 0)"
proof -
  from hundred obtain h where h: "float_of_int 100 = Finite h" "val h = 100" by blast
  from zero_float obtain z where z: "py_float 0 = Finite z" "val z = 0" by blast
  from assms show ?thesis
  proof
    assume "q = NegInf"
    then show ?thesis by (simp add: h z inf_of_def)
  next
    assume "\<exists>qd. q = Finite qd \<and> val qd \<le> 0"
    then obtain qd where qd: "q = Finite qd" "val qd \<le> 0" by blast
    then have "val qd * 100 \<le> 0" by simp
    from rnd_mono [OF this] have le: "rnd (val qd * 100) \<le> 0" by simp
    have p: "fmul q (Finite h) = round64 (val qd * 100)" by (simp add: qd h)
    show ?thesis
    proof (cases "val qd * 100" rule: round64_cases)
      case (1 pd)
      with le show ?thesis by (simp add: h z p)
    next
      case 2
      with le have "(2::real) ^ 1024 \<le> 0" by linarith
      then show ?thesis by simp
    next
      case 3
      then show ?thesis by (simp add: h z p)
    qed
  qed
qed

lemma fmul_100_neg:
  assumes "q = NegInf \<or> (\<exists>qd. q = Finite qd \<and> val qd \<le> - min_subnormal)"
  shows "flt (fmul q (float_of_int 100)) (py_float 0)"
proof -
  from hundred obtain h where h: "float_of_int 100 = Finite h" "val h = 100" by blast
  from zero_float obtain z where z: "py_float 0 = Finite z" "val z = 0" by blast
  from assms show ?thesis
  proof
    assume "q = NegInf"
    then show ?thesis by (simp add: h z inf_of_def)
  next
    assume "\<exists>qd. q = Finite qd \<and> val qd \<le> - min_subnormal"
    then obtain qd where qd: "q = Finite qd" "val qd \<le> - min_subnormal" by blast
    then have "val qd * 100 \<le> - 100 * min_subnormal" by simp
    from rnd_mono [OF this] have "rnd (val qd * 100) \<le> - 100 * min_subnormal"
      by (simp only: rnd_100_tiny)
    moreover have "- 100 * min_subnormal < 0" using min_subnormal_pos by simp
    ultimately have lt: "rnd (val qd * 100) < 0" by (rule le_less_trans)
    have p: "fmul q (Finite h) = round64 (val qd * 100)" by (simp add: qd h)
    show ?thesis
    proof (cases "val qd * 100" rule: round64_cases)
      case (1 pd)
      with lt show ?thesis by (simp add: h z p)
    next
      case 2
      with lt have "(2::real) ^ 1024 < 0" by linarith
      then show ?thesis by simp
    next
      case 3
      then show ?thesis by (simp add: h z p)
    qed
  qed
qed

text \<open>
  Claim C10, as it holds on the code. The shortest baseline is the Lob Wedge's 80, the
  first entry of \<open>sorted_clubs\<close>. For every strictly negative distance
  \<open>suggest_club_and_percentage\<close> returns the Lob Wedge with the percentage
  (distance / 80) * 100, the float quotient times the float 100. That percentage is never
  positive, and it is strictly negative whenever the distance is at most
  \<open>- 41 * min_subnormal\<close>, about \<^verbatim>\<open>-2.03e-322\<close>.
\<close>

theorem suggest_club_negative:
  assumes "flt ad (py_float 0)"
  shows "hd sorted_clubs = (''Lob Wedge'', 80) \<and>
    (\<exists>q. fdiv ad (float_of_int 80) = Inr q \<and>
       suggest_club_and_percentage ad = Inr (''Lob Wedge'', fmul q (float_of_int 100)) \<and>
       fle (fmul q (float_of_int 100)) (py_float 0) \<and>
       (fle ad (py_float (- 41 * min_subnormal)) \<longrightarrow>
          flt (fmul q (float_of_int 100)) (py_float 0)))"
proof -
  have hd: "hd sorted_clubs = (''Lob Wedge'', 80)" by (simp add: sorted_clubs_eq)
  from float_of_int_val [of 80] obtain dd
    where dd: "float_of_int 80 = Finite dd" "val dd = 80" by auto
  from zero_float obtain z where z: "py_float 0 = Finite z" "val z = 0" by blast
  have "fle ad (float_of_int 80)"
    using assms by (cases ad) (auto simp: dd z)
  then have f: "find (matches ad) sorted_clubs = Some (''Lob Wedge'', 80)"
    by (simp add: sorted_clubs_eq matches_def)
  from fdiv_80_neg [OF assms] obtain q
    where q: "fdiv ad (float_of_int 80) = Inr q"
      and c: "q = NegInf \<or> (\<exists>qd. q = Finite qd \<and> val qd \<le> 0 \<and>
       (fle ad (py_float (- 41 * min_subnormal)) \<longrightarrow> val qd \<le> - min_subnormal))"
    by blast
  have s: "suggest_club_and_percentage ad = Inr (''Lob Wedge'', fmul q (float_of_int 100))"
    by (simp add: suggest_find f percentage_of_def q)
  from c have "q = NegInf \<or> (\<exists>qd. q = Finite qd \<and> val qd \<le> 0)" by blast
  then have le: "fle (fmul q (float_of_int 100)) (py_float 0)" by (rule fmul_100_nonpos)
  have "fle ad (py_float (- 41 * min_subnormal)) \<longrightarrow> flt (fmul q (float_of_int 100)) (py_float 0)"
  proof
    assume "fle ad (py_float (- 41 * min_subnormal))"
    with c have "q = NegInf \<or> (\<exists>qd. q = Finite qd \<and> val qd \<le> - min_subnormal)" by blast
    then show "flt (fmul q (float_of_int 100)) (py_float 0)" by (rule fmul_100_neg)
  qed
  with hd q s le show ?thesis by blast
qed

text \<open>The theorem at minus 40 yards: the quotient is -0.5, the Lob Wedge at minus 50 percent.\<close>

theorem suggest_club_negative_witness:
  "flt (py_float (- 40)) (py_float 0) \<and>
   fle (py_float (- 40)) (py_float (- 41 * min_subnormal)) \<and>
   fdiv (py_float (- 40)) (float_of_int 80) = Inr (py_float (- 1 / 2)) \<and>
   suggest_club_and_percentage (py_float (- 40)) = Inr (''Lob Wedge'', py_float (- 50)) \<and>
   flt (py_float (- 50)) (py_float 0)"
proof -
  have neg: "flt (py_float (- 40)) (py_float 0)" by (simp add: flt_double)
  have "- 40 \<le> - 41 * min_subnormal" using min_subnormal_le by simp
  moreover have "is_double (- 40)" by simp
  ultimately have le: "fle (py_float (- 40)) (py_float (- 41 * min_subnormal))"
    using fle_double [of "- 40" "- 41 * min_subnormal"] is_double_41 by blast
  have "fdiv (py_float (- 40)) (py_float 80) = Inr (py_float (- 40 / 80))"
    by (rule fdiv_double) simp_all
  also have "py_float (- 40 / 80) = py_float (- 1 / 2)"
    using rnd_40_80 by (rule py_float_eval)
  finally have d: "fdiv (py_float (- 40)) (float_of_int 80) = Inr (py_float (- 1 / 2))"
    by (simp add: float_of_int_eq)
  have q: "is_double (- 1 / 2)" using rnd_40_80 by (rule is_double_of_rnd) simp
  have h: "is_double 100" by simp
  have m: "fmul (py_float (- 1 / 2)) (float_of_int 100) = py_float (- 50)"
    unfolding float_of_int_eq of_int_numeral fmul_double [OF q h] by simp
  from suggest_club_negative [OF neg] obtain q' where
    "fdiv (py_float (- 40)) (float_of_int 80) = Inr q'"
    "suggest_club_and_percentage (py_float (- 40)) = Inr (''Lob Wedge'', fmul q' (float_of_int 100))"
    "fle (py_float (- 40)) (py_float (- 41 * min_subnormal)) \<longrightarrow>
          flt (fmul q' (float_of_int 100)) (py_float 0)"
    by blast
  with d m le have "suggest_club_and_percentage (py_float (- 40)) = Inr (''Lob Wedge'', py_float (- 50))"
    "flt (py_float (- 50)) (py_float 0)"
    by simp_all
  with neg le d show ?thesis by simp
qed

text \<open>
  The claim as written says that the percentage is strictly negative for every negative
  distance. At the negative float nearest to zero, \<^verbatim>\<open>-5e-324\<close>, the quotient underflows to
  zero and the percentage is zero (Python prints \<^verbatim>\<open>-0.0\<close>, and \<^verbatim>\<open>-0.0 < 0\<close> is false).
\<close>

theorem suggest_club_negative_counterexample:
  "flt (py_float (- min_subnormal)) (py_float 0) \<and>
   suggest_club_and_percentage (py_float (- min_subnormal)) =
     Inr (''Lob Wedge'', py_float 0) \<and>
   \<not> flt (py_float 0) (py_float 0)"
proof -
  have neg: "flt (py_float (- min_subnormal)) (py_float 0)"
    using flt_double [OF is_double_tiny is_double_0] min_subnormal_pos by simp
  have "rnd (- min_subnormal / real_of_int 80) = 0" using rnd_tiny_80 by simp
  moreover have "rnd (0 * 100) = 0" by simp
  ultimately have p: "percentage_of (py_float (- min_subnormal)) 80 = Inr (py_float 0)"
    by (intro percentage_of_double [where q = 0, OF is_double_tiny]) simp_all
  have m: "matches (py_float (- min_subnormal)) (''Lob Wedge'', 80)"
    using matches_double [OF is_double_tiny, of 80 "''Lob Wedge''"] min_subnormal_pos
    by simp
  have "suggest_club_and_percentage (py_float (- min_subnormal)) =
     Inr (''Lob Wedge'', py_float 0)"
    by (simp add: suggest_find sorted_clubs_eq m p)
  moreover have "\<not> flt (py_float 0) (py_float 0)" by (simp add: flt_double)
  ultimately show ?thesis using neg by simp
qed

section \<open>The shot adjuster: claims\<close>

lemma radians_zero: "math_radians (py_float 0) = py_float 0"
proof -
  from degToRad_val have "is_finite degToRad" by (auto simp: is_finite_iff)
  then show ?thesis by (simp add: math_radians_def fmul_zero_left)
qed

lemma float_cos_zero: "float_cos (py_float 0) = py_float 1"
  using zero_float by (auto simp: py_float_def)

lemma float_sin_zero: "float_sin (py_float 0) = py_float 0"
  using zero_float by (auto simp: py_float_def)

text \<open>The formula at a wind angle of zero degrees.\<close>

lemma formula_zero_angle:
  "adjustShot_formula b e w (py_float 0) fe fw =
    (fadd (fadd b (fmul (fmul e (py_float 0.33)) fe)) (fmul (fmul w (py_float 1)) fw),
     fmul (fmul w (py_float 0)) fw)"
  by (simp add: adjustShot_formula_def radians_zero float_cos_zero float_sin_zero)


lemma driver_tailwind:
  "fmul (fmul (py_float 0) (py_float 0.33)) (py_float 0.25) = py_float 0"
  "fmul (fmul (py_float 10) (py_float 0)) (py_float 0.08) = py_float 0"
  "fmul (fmul (py_float 10) (py_float 1)) (py_float 0.08) = py_float (3602879701896397 / 2 ^ 52)"
  "is_double (3602879701896397 / 2 ^ 52)"
proof -
  have c08: "is_double (5764607523034235 / 2 ^ 56)"
    using rnd_008 by (rule is_double_of_rnd) simp
  have l08: "py_float 0.08 = py_float (5764607523034235 / 2 ^ 56)"
    using rnd_008 by (rule py_float_eval)
  show "fmul (fmul (py_float 0) (py_float 0.33)) (py_float 0.25) = py_float 0"
    "fmul (fmul (py_float 10) (py_float 0)) (py_float 0.08) = py_float 0"
    using zero_float fmul_double [of 10 0] by (auto simp: fmul_zero_left py_float_small)
  have e1: "fmul (py_float 10) (py_float 1) = py_float 10"
    using fmul_double [of 10 1] by simp
  have "fmul (py_float 10) (py_float 0.08) = py_float (3602879701896397 / 2 ^ 52)"
    unfolding l08 using _ c08 rnd_10_008 by (rule fmul_eval) simp
  then show "fmul (fmul (py_float 10) (py_float 1)) (py_float 0.08) =
      py_float (3602879701896397 / 2 ^ 52)"
    by (simp only: e1)
  show "is_double (3602879701896397 / 2 ^ 52)"
    using rnd_10_008 by (rule is_double_of_rnd) simp
qed

lemma formula_driver_100:
  "adjustShot_formula (py_float 100) (py_float 0) (py_float 10) (py_float 0)
      (py_float 0.25) (py_float 0.08) = (py_float 100.8, py_float 0)"
proof -
  have l1008: "py_float 100.8 = py_float (7093169413108531 / 2 ^ 46)"
    using rnd_1008 by (rule py_float_eval)
  have e3: "fadd (py_float 100) (py_float (3602879701896397 / 2 ^ 52)) =
      py_float (7093169413108531 / 2 ^ 46)"
    using _ driver_tailwind(4) rnd_100_08 by (rule fadd_eval) simp
  show ?thesis
    unfolding formula_zero_angle driver_tailwind(1-3) fadd_zero_right e3 l1008 ..
qed


lemma zero_not_inf: "\<not> is_inf (py_float 0)"
  using zero_float by auto




text \<open>
  Claim C6, as it holds on the code. \<open>calculate_adjusted_shot\<close> fails with \<open>KeyError\<close>
  (the unknown-club error) if and only if the club is not a key of \<open>CLUB_FACTORS\<close>, and
  the error names the club. For a club of the table it returns a result whenever the wind
  angle is not infinite, and raises \<open>ValueError\<close>, not the unknown-club error, when the
  wind angle is infinite.
\<close>

theorem adjust_shot_errors:
  "((\<exists>k. calculate_adjusted_shot base elevation wind_speed wind_angle_deg club = Inl (KeyError k))
      \<longleftrightarrow> club \<notin> fst ` set CLUB_FACTORS) \<and>
   (club \<notin> fst ` set CLUB_FACTORS \<longrightarrow>
      calculate_adjusted_shot base elevation wind_speed wind_angle_deg club = Inl (KeyError club)) \<and>
   (club \<in> fst ` set CLUB_FACTORS \<and> \<not> is_inf wind_angle_deg \<longrightarrow>
      (\<exists>r. calculate_adjusted_shot base elevation wind_speed wind_angle_deg club = Inr r)) \<and>
   (club \<in> fst ` set CLUB_FACTORS \<and> is_inf wind_angle_deg \<longrightarrow>
      calculate_adjusted_shot base elevation wind_speed wind_angle_deg club = Inl ValueError)"
proof (intro conjI impI iffI)
  assume "\<exists>k. calculate_adjusted_shot base elevation wind_speed wind_angle_deg club = Inl (KeyError k)"
  then obtain k
    where k: "calculate_adjusted_shot base elevation wind_speed wind_angle_deg club = Inl (KeyError k)"
    by blast
  show "club \<notin> fst ` set CLUB_FACTORS"
  proof
    assume in_table: "club \<in> fst ` set CLUB_FACTORS"
    show False
    proof (cases "is_inf wind_angle_deg")
      case True
      from adjust_shot_inf_angle [OF in_table True, of base elevation wind_speed] k
      show False by simp
    next
      case False
      from adjust_shot_returns [OF in_table False, of base elevation wind_speed] k
      show False by auto
    qed
  qed
next
  assume "club \<notin> fst ` set CLUB_FACTORS"
  then show "\<exists>k. calculate_adjusted_shot base elevation wind_speed wind_angle_deg club = Inl (KeyError k)"
    by (simp add: adjust_shot_missing)
next
  assume "club \<notin> fst ` set CLUB_FACTORS"
  then show "calculate_adjusted_shot base elevation wind_speed wind_angle_deg club = Inl (KeyError club)"
    by (rule adjust_shot_missing)
next
  assume "club \<in> fst ` set CLUB_FACTORS \<and> \<not> is_inf wind_angle_deg"
  then show "\<exists>r. calculate_adjusted_shot base elevation wind_speed wind_angle_deg club = Inr r"
    using adjust_shot_returns [of club wind_angle_deg base elevation wind_speed] by blast
next
  assume "club \<in> fst ` set CLUB_FACTORS \<and> is_inf wind_angle_deg"
  then show "calculate_adjusted_shot base elevation wind_speed wind_angle_deg club = Inl ValueError"
    by (simp add: adjust_shot_inf_angle)
qed

text \<open>
  The theorem at a club outside the table (a putter) and at the Driver with a 10 mph
  tailwind: the first call raises \<open>KeyError\<close>; the second returns the float \<^verbatim>\<open>100.8\<close>
  and no lateral adjustment.
\<close>

theorem adjust_shot_errors_witness:
  "''Putter'' \<notin> fst ` set CLUB_FACTORS \<and>
   calculate_adjusted_shot (py_float 100) (py_float 0) (py_float 10) (py_float 0) ''Putter'' =
     Inl (KeyError ''Putter'') \<and>
   ''Driver'' \<in> fst ` set CLUB_FACTORS \<and> \<not> is_inf (py_float 0) \<and>
   calculate_adjusted_shot (py_float 100) (py_float 0) (py_float 10) (py_float 0) ''Driver'' =
     Inr (py_float 100.8, py_float 0)"
proof -
  have putter: "''Putter'' \<notin> fst ` set CLUB_FACTORS" by (simp add: CLUB_FACTORS_def)
  with adjust_shot_errors [of "py_float 100" "py_float 0" "py_float 10" "py_float 0" "''Putter''"]
  have k: "calculate_adjusted_shot (py_float 100) (py_float 0) (py_float 10) (py_float 0) ''Putter'' =
     Inl (KeyError ''Putter'')" by blast
  have r: "calculate_adjusted_shot (py_float 100) (py_float 0) (py_float 10) (py_float 0) ''Driver'' =
     Inr (py_float 100.8, py_float 0)"
    using adjust_shot_is_formula [OF driver_factors zero_not_inf] formula_driver_100 by simp
  from putter k driver_key zero_not_inf r show ?thesis by simp
qed

text \<open>
  The claim as written says that every club of the table gives a result without raising.
  The Driver with a wind angle of plus infinity raises \<open>ValueError\<close>.
\<close>

theorem adjust_shot_errors_counterexample:
  "''Driver'' \<in> fst ` set CLUB_FACTORS \<and>
   calculate_adjusted_shot (py_float 100) (py_float 0) (py_float 10) PosInf ''Driver'' =
     Inl ValueError"
proof -
  have "calculate_adjusted_shot (py_float 100) (py_float 0) (py_float 10) PosInf ''Driver'' =
     Inl ValueError"
    by (rule adjust_shot_inf_angle [OF driver_key]) simp
  with driver_key show ?thesis by simp
qed

text \<open>
  Claim C7, as it holds on the code. For every club of the table, every base distance
  \<open>d\<close> and every finite wind angle, zero elevation change and zero wind speed give back
  \<open>(d, 0)\<close>: the base distance unchanged and no lateral adjustment.
\<close>

theorem adjust_shot_no_adjustment:
  assumes "club \<in> fst ` set CLUB_FACTORS" and "is_finite wind_angle_deg"
  shows "calculate_adjusted_shot d (py_float 0) (py_float 0) wind_angle_deg club =
    Inr (d, py_float 0)"
proof -
  from club_factor_present [OF assms(1)] obtain ef wf
    where f: "club_factor club ''elevation'' = Inr (Finite ef)"
             "club_factor club ''wind'' = Inr (Finite wf)" by blast
  from assms(2) have ni: "\<not> is_inf wind_angle_deg" by (cases wind_angle_deg) simp_all
  from assms(2) have r: "is_finite (math_radians wind_angle_deg)" by (rule radians_finite)
  have z33: "fmul (py_float 0) (py_float 0.33) = py_float 0"
    by (simp add: fmul_zero_left py_float_small)
  have "adjustShot_formula d (py_float 0) (py_float 0) wind_angle_deg (Finite ef) (Finite wf) =
      (d, py_float 0)"
    unfolding adjustShot_formula_def Let_def z33
    by (simp add: fmul_zero_left float_cos_finite [OF r] float_sin_finite [OF r] fadd_zero_right)
  with adjust_shot_is_formula [OF f ni] show ?thesis by simp
qed

theorem adjust_shot_no_adjustment_witness:
  "''Driver'' \<in> fst ` set CLUB_FACTORS \<and> is_finite (py_float 45) \<and>
   calculate_adjusted_shot (py_float 150) (py_float 0) (py_float 0) (py_float 45) ''Driver'' =
     Inr (py_float 150, py_float 0)"
proof -
  have a: "is_finite (py_float 45)" by (simp add: py_float_double)
  from adjust_shot_no_adjustment [OF driver_key a, of "py_float 150"] driver_key a
  show ?thesis by simp
qed

text \<open>
  The claim as written covers every angle. With a NaN angle the Driver gives
  \<open>(NaN, NaN)\<close> instead of \<open>(100, 0)\<close>, and with an infinite angle the call raises.
\<close>

theorem adjust_shot_no_adjustment_counterexample:
  "''Driver'' \<in> fst ` set CLUB_FACTORS \<and>
   calculate_adjusted_shot (py_float 100) (py_float 0) (py_float 0) NaN ''Driver'' = Inr (NaN, NaN) \<and>
   calculate_adjusted_shot (py_float 100) (py_float 0) (py_float 0) NaN ''Driver''
     \<noteq> Inr (py_float 100, py_float 0) \<and>
   calculate_adjusted_shot (py_float 100) (py_float 0) (py_float 0) PosInf ''Driver'' = Inl ValueError"
proof -
  have n: "calculate_adjusted_shot (py_float 100) (py_float 0) (py_float 0) NaN ''Driver'' =
      Inr (NaN, NaN)"
    by (simp add: calculate_adjusted_shot_def driver_factors math_radians_def)
  have "py_float 100 \<noteq> NaN" by (simp add: py_float_double)
  with n have "calculate_adjusted_shot (py_float 100) (py_float 0) (py_float 0) NaN ''Driver''
     \<noteq> Inr (py_float 100, py_float 0)" by simp
  moreover have "calculate_adjusted_shot (py_float 100) (py_float 0) (py_float 0) PosInf ''Driver'' =
      Inl ValueError"
    by (rule adjust_shot_inf_angle [OF driver_key]) simp
  ultimately show ?thesis using driver_key n by simp
qed

end
